theory Spec2Isabelle
  imports Main "HOL-Library.Word"
begin

section \<open>Constants of devio.c\<close>

type_synonym byte_t = "8 word"

text \<open>A \<open>libusb_device_handle *\<close>: \<open>None\<close> is the NULL pointer.\<close>

type_synonym handle = nat

definition PACKET_SIZE :: nat where
  "PACKET_SIZE = 64"

text \<open>The timeout of a control transfer, in milliseconds.\<close>

definition TIMEOUT :: nat where
  "TIMEOUT = 1000"

definition HEADER_CODE :: byte_t where
  "HEADER_CODE = 0x04"

definition DISPLAY_CODE :: byte_t where
  "DISPLAY_CODE = 0xf2"

definition PACKET_CNT :: byte_t where
  "PACKET_CNT = 0x01"

text \<open>Error codes of libusb that \<open>claim_dev_interface\<close> tests for (libusb.h).\<close>

definition LIBUSB_ERROR_NO_DEVICE :: int where
  "LIBUSB_ERROR_NO_DEVICE = - 4"

definition LIBUSB_ERROR_BUSY :: int where
  "LIBUSB_ERROR_BUSY = - 6"

text \<open>
  The messages, by the text handed to the \<open>_\<close> macro of locale_macros.h (the
  translation catalogue is outside this file).
\<close>

definition DEVLIST_ERR_MSG :: string where
  "DEVLIST_ERR_MSG = ''Couldn't get the list of USB devices.'' @ [CHR 0x0A]"

definition NODEV_ERR_MSG :: string where
  "NODEV_ERR_MSG =
     ''HyperX Quadcast S/DuoCast isn't connected or accessible through USB.'' @ [CHR 0x0A]"

definition OPEN_ERR_MSG :: string where
  "OPEN_ERR_MSG = ''Couldn't open the microphone.'' @ [CHR 0x0A]"

definition BUSY_ERR_MSG :: string where
  "BUSY_ERR_MSG =
     ''Another program is using the microphone already. Stopping.'' @ [CHR 0x0A]"

text \<open>The anonymous enum of error codes: \<open>libusberr = 2\<close> and its successors.\<close>

definition libusberr :: int where
  "libusberr = 2"

definition nodeverr :: int where
  "nodeverr = 3"

definition devopenerr :: int where
  "devopenerr = 4"

definition transfererr :: int where
  "transfererr = 5"

definition DEV_VID_KINGSTON :: "16 word" where
  "DEV_VID_KINGSTON = 0x0951"

definition DEV_VID_HP :: "16 word" where
  "DEV_VID_HP = 0x03f0"

definition product_ids_kingston :: "16 word list" where
  "product_ids_kingston = [0x171f]"

definition product_ids_hp :: "16 word list" where
  "product_ids_hp = [0x0f8b, 0x028c, 0x048c, 0x068c, 0x098c]"

section \<open>The device matcher\<close>

text \<open>
  An enumerated \<open>libusb_device\<close>: what \<open>libusb_get_device_descriptor\<close> returns for it
  (\<open>descr_ret\<close>, negative on failure) and the two descriptor fields the code reads.
\<close>

record device =
  dev_id :: nat
  descr_ret :: int
  idVendor :: "16 word"
  idProduct :: "16 word"

text \<open>The scan \<open>for (i = 0; i < arr_size; i++)\<close> of \<open>is_compatible_mic\<close>.\<close>

primrec product_id_scan :: "16 word \<Rightarrow> 16 word list \<Rightarrow> int" where
  "product_id_scan pid [] = 0"
| "product_id_scan pid (x # product_id_arr) =
     (if pid = x then 1 else product_id_scan pid product_id_arr)"

definition is_compatible_mic :: "device \<Rightarrow> int" where
  "is_compatible_mic dev =
     (if descr_ret dev < 0 then 0
      else if idVendor dev = DEV_VID_KINGSTON then
        product_id_scan (idProduct dev) product_ids_kingston
      else if idVendor dev = DEV_VID_HP then
        product_id_scan (idProduct dev) product_ids_hp
      else 0)"

text \<open>
  The identity table as the specification lists it: the accepted (vendor, product) pairs.
\<close>

definition identity_table :: "(16 word \<times> 16 word) list" where
  "identity_table =
     [(0x0951, 0x171f),
      (0x03f0, 0x0f8b), (0x03f0, 0x028c), (0x03f0, 0x048c), (0x03f0, 0x068c),
      (0x03f0, 0x098c)]"

section \<open>The outside world and the observable events\<close>

text \<open>
  Which of the two call sites of \<open>libusb_control_transfer\<close> issued a transfer: the one
  in \<open>send_display_command\<close> (the header) or the one in \<open>display_data_arr\<close> (the data
  packet, with the offset of \<open>colcommand\<close> from \<open>*data_arr\<close> at that moment).
\<close>

datatype packet_kind = Header_packet | Data_packet int

datatype event =
    Read_nonstop bool
  | Control_transfer packet_kind "handle option" "byte_t list" int
  | Usleep nat
  | Release_interface handle nat
  | Close handle
  | Get_device_list
  | Free_device_list
  | Open_device nat int handle
  | Claim_interface handle nat int
  | Set_auto_detach handle
  | Fprintf_stderr string
  | Perror string
  | Libusb_init int
  | Libusb_exit
  | Free_data_arr

text \<open>
  Everything the code cannot decide by itself. \<open>BYTE_STEP\<close> is the macro of rgbmodes.h,
  \<open>data_arr\<close> the bytes stored from \<open>*data_arr\<close> on, \<open>command_cnt\<close> what
  \<open>count_color_commands\<close> returned. A signal handler run sets \<open>nonstop\<close> to 0:
  \<open>signal_at = Some t\<close> says that the reads of \<open>nonstop\<close> numbered \<open>t\<close> and later (from 0,
  counted from \<open>nonstop = 1\<close>) see 0. The results of the libusb calls are given by the
  number of the call.
\<close>

text \<open>
  Left out: the output of DEBUG builds, \<open>libusb_set_option\<close>, the counter
  \<open>reconnect_attempts\<close> (written, read by DEBUG output only), the parameters \<open>verbose\<close>
  and \<open>pck_cnt\<close>, a failing \<open>calloc\<close> of the packet buffer, and \<open>daemonize\<close>: the model
  follows the process that goes on after the forks, and an event \<open>Fprintf_stderr\<close> records
  the call, not where file descriptor 2 leads by then.
\<close>

record env =
  BYTE_STEP :: nat
  data_arr :: "byte_t list"
  command_cnt :: int
  signal_at :: "nat option"
  transfer_result :: "nat \<Rightarrow> int"
  device_list_result :: "nat \<Rightarrow> device list option"
  open_result :: "nat \<Rightarrow> int"
  claim_result :: "nat \<Rightarrow> int"
  init_result :: int
  libusb_strerror :: "int \<Rightarrow> string"

record state =
  trace :: "event list"
  nreads :: nat
  nxfers :: nat
  nlists :: nat
  nopens :: nat
  nclaims :: nat

definition init_state :: state where
  "init_state = \<lparr>trace = [], nreads = 0, nxfers = 0, nlists = 0, nopens = 0, nclaims = 0\<rparr>"

text \<open>
  A loop that may run forever takes fuel: \<open>Out_of_fuel\<close> is a run that has not returned
  yet. \<open>Fault\<close> is a \<open>memcpy\<close> outside its source or destination.
\<close>

datatype 'a outcome = Done 'a | Out_of_fuel | Fault

definition emit :: "event \<Rightarrow> state \<Rightarrow> state" where
  "emit ev st = st\<lparr>trace := trace st @ [ev]\<rparr>"

definition usleep :: "nat \<Rightarrow> state \<Rightarrow> state" where
  "usleep usec st = emit (Usleep usec) st"

definition nonstop_at :: "env \<Rightarrow> nat \<Rightarrow> bool" where
  "nonstop_at e k = (case signal_at e of None \<Rightarrow> True | Some t \<Rightarrow> k < t)"

definition read_nonstop :: "env \<Rightarrow> state \<Rightarrow> bool \<times> state" where
  "read_nonstop e st =
     (nonstop_at e (nreads st),
      emit (Read_nonstop (nonstop_at e (nreads st))) (st\<lparr>nreads := Suc (nreads st)\<rparr>))"

text \<open>
  Every control transfer of the file has request type 0x21, request 0x09, value 0x0300,
  index 0, length \<open>PACKET_SIZE\<close> and timeout \<open>TIMEOUT\<close>; the event keeps the buffer and
  the returned count (a transfer that timed out returns a negative code).
\<close>

definition libusb_control_transfer ::
  "env \<Rightarrow> packet_kind \<Rightarrow> handle option \<Rightarrow> byte_t list \<Rightarrow> state \<Rightarrow> int \<times> state" where
  "libusb_control_transfer e k h buf st =
     (transfer_result e (nxfers st),
      emit (Control_transfer k h buf (transfer_result e (nxfers st)))
        (st\<lparr>nxfers := Suc (nxfers st)\<rparr>))"

text \<open>The conversion of the returned \<open>int\<close> to the \<open>short sent\<close>.\<close>

definition to_short :: "int \<Rightarrow> int" where
  "to_short r = sint (word_of_int r :: 16 word)"

definition libusb_release_interface :: "handle \<Rightarrow> nat \<Rightarrow> state \<Rightarrow> state" where
  "libusb_release_interface h i st = emit (Release_interface h i) st"

definition libusb_close :: "handle \<Rightarrow> state \<Rightarrow> state" where
  "libusb_close h st = emit (Close h) st"

definition libusb_claim_interface :: "env \<Rightarrow> handle \<Rightarrow> nat \<Rightarrow> state \<Rightarrow> int \<times> state" where
  "libusb_claim_interface e h i st =
     (claim_result e (nclaims st),
      emit (Claim_interface h i (claim_result e (nclaims st)))
        (st\<lparr>nclaims := Suc (nclaims st)\<rparr>))"

text \<open>\<open>libusb_open\<close>: the error code, and the handle it stores (a fresh one).\<close>

definition libusb_open :: "env \<Rightarrow> device \<Rightarrow> state \<Rightarrow> int \<times> handle \<times> state" where
  "libusb_open e dev st =
     (open_result e (nopens st), nopens st,
      emit (Open_device (dev_id dev) (open_result e (nopens st)) (nopens st))
        (st\<lparr>nopens := Suc (nopens st)\<rparr>))"

text \<open>\<open>libusb_get_device_list\<close>: \<open>None\<close> is a negative count.\<close>

definition libusb_get_device_list :: "env \<Rightarrow> state \<Rightarrow> device list option \<times> state" where
  "libusb_get_device_list e st =
     (device_list_result e (nlists st),
      emit Get_device_list (st\<lparr>nlists := Suc (nlists st)\<rparr>))"

text \<open>
  \<open>libusb_free_device_list\<close> of a list that is allocated. \<open>attempt_reconnect\<close> calls it
  once on every path after a \<open>libusb_get_device_list\<close> that gave its list.
\<close>

definition libusb_free_device_list :: "state \<Rightarrow> state" where
  "libusb_free_device_list st = emit Free_device_list st"

text \<open>
  The variable \<open>devs\<close> of \<open>open_micro\<close>. It is declared without a value, a
  \<open>libusb_get_device_list\<close> that fails stores nothing in it, and after
  \<open>libusb_free_device_list\<close> it still holds the address of the list that is gone.
  Freeing it in the first or the last of these states is undefined behaviour: \<open>free_devs\<close>
  is \<open>None\<close> there.
\<close>

datatype devs_ptr = Unassigned | Allocated "device list" | Dangling

fun free_devs :: "devs_ptr \<Rightarrow> state \<Rightarrow> (devs_ptr \<times> state) option" where
  "free_devs (Allocated l) st = Some (Dangling, libusb_free_device_list st)"
| "free_devs devs st = None"

definition fprintf_stderr :: "string \<Rightarrow> state \<Rightarrow> state" where
  "fprintf_stderr msg st = emit (Fprintf_stderr msg) st"

section \<open>Opening the microphone\<close>

fun dev_search :: "device list \<Rightarrow> state \<Rightarrow> device option \<times> state" where
  "dev_search [] st = (None, st)"
| "dev_search (dev # devs) st =
     (if is_compatible_mic dev \<noteq> 0 then (Some dev, usleep 10000 st)
      else dev_search devs (usleep 10000 st))"

text \<open>
  The retry loop of \<open>claim_dev_interface\<close>. It returns \<open>Inl 0\<close> where the code returns 0
  from inside the loop, and \<open>Inr (errcode0, errcode1)\<close>, the codes of the last attempt,
  where the loop ends. \<open>errs\<close> are the codes of the attempt before.
\<close>

function claim_loop ::
  "env \<Rightarrow> handle \<Rightarrow> nat \<Rightarrow> int \<times> int \<Rightarrow> state \<Rightarrow> (int + int \<times> int) \<times> state" where
  "claim_loop e h retry errs st =
     (if retry < 3 then
        (case libusb_claim_interface e h 0 (if retry > 0 then usleep 100000 st else st) of
           (errcode0, st1) \<Rightarrow>
             (case libusb_claim_interface e h 1 st1 of
                (errcode1, st2) \<Rightarrow>
                  if errcode0 = 0 \<and> errcode1 = 0 then (Inl 0, st2)
                  else claim_loop e h (retry + 1) (errcode0, errcode1)
                         ((if errcode1 = 0 then libusb_release_interface h 1 else id)
                            ((if errcode0 = 0 then libusb_release_interface h 0 else id) st2))))
      else (Inr errs, st))"
  by pat_completeness auto
termination
  by (relation "measure (\<lambda>(e, h, retry, errs, st). 3 - retry)") auto

definition claim_dev_interface :: "env \<Rightarrow> handle \<Rightarrow> state \<Rightarrow> int \<times> state" where
  "claim_dev_interface e h st =
     (case claim_loop e h 0 (0, 0) (emit (Set_auto_detach h) st) of
        (Inl r, st1) \<Rightarrow> (r, st1)
      | (Inr (errcode0, errcode1), st1) \<Rightarrow>
          if errcode0 = LIBUSB_ERROR_BUSY \<or> errcode1 = LIBUSB_ERROR_BUSY then
            (1, fprintf_stderr BUSY_ERR_MSG st1)
          else if errcode0 = LIBUSB_ERROR_NO_DEVICE \<or> errcode1 = LIBUSB_ERROR_NO_DEVICE then
            (1, fprintf_stderr OPEN_ERR_MSG st1)
          else (1, st1))"

text \<open>
  \<open>open_micro\<close> either returns a handle or leaves the process through \<open>exit\<close>. An exit
  keeps the code given to \<open>exit\<close> and the place it was called from. \<open>Bad_free\<close> is a run
  that called \<open>libusb_free_device_list\<close> on a \<open>devs\<close> that was not allocated; what the
  process does from there on is not defined, and the run is followed no further.
\<close>

datatype exit_site = At_init | At_devlist | At_nodev | At_open | At_claim

datatype opened = Returned handle | Exited exit_site int | Bad_free

definition FREE_AND_EXIT :: "exit_site \<Rightarrow> devs_ptr \<Rightarrow> state \<Rightarrow> opened \<times> state" where
  "FREE_AND_EXIT site devs st =
     (case free_devs devs st of
        None \<Rightarrow> (Bad_free, st)
      | Some (devs', st1) \<Rightarrow> (Exited site libusberr, emit Libusb_exit (emit Free_data_arr st1)))"

text \<open>
  The first loop of \<open>open_micro\<close>: \<open>Inl\<close> is the way out taken inside the loop, \<open>Inr\<close> the
  values of \<open>micro_dev\<close> and \<open>devs\<close> after it.
\<close>

function search_loop ::
  "env \<Rightarrow> nat \<Rightarrow> devs_ptr \<Rightarrow> state \<Rightarrow> ((opened + device option \<times> devs_ptr) \<times> state)" where
  "search_loop e retry_count devs st =
     (if retry_count < 3 then
        (case libusb_get_device_list e (if retry_count > 0 then usleep 500000 st else st) of
           (None, st1) \<Rightarrow>
             if retry_count < 2 then
               (case free_devs devs st1 of
                  None \<Rightarrow> (Inl Bad_free, st1)
                | Some (devs', st2) \<Rightarrow> search_loop e (retry_count + 1) devs' st2)
             else
               (case FREE_AND_EXIT At_devlist devs (fprintf_stderr DEVLIST_ERR_MSG st1) of
                  (x, st2) \<Rightarrow> (Inl x, st2))
         | (Some l, st1) \<Rightarrow>
             (case dev_search l st1 of
                (Some micro_dev, st2) \<Rightarrow> (Inr (Some micro_dev, Allocated l), st2)
              | (None, st2) \<Rightarrow>
                  (case free_devs (Allocated l) st2 of
                     None \<Rightarrow> (Inl Bad_free, st2)
                   | Some (devs', st3) \<Rightarrow> search_loop e (retry_count + 1) devs' st3)))
      else (Inr (None, devs), st))"
  by pat_completeness auto
termination
  by (relation "measure (\<lambda>(e, retry_count, devs, st). 3 - retry_count)") auto

text \<open>
  The second loop of \<open>open_micro\<close>: the last \<open>errcode\<close> of \<open>libusb_open\<close> and the handle.
  In \<open>open_micro\<close> the variable \<open>errcode\<close> is a \<open>short\<close>.
\<close>

function open_loop ::
  "env \<Rightarrow> device \<Rightarrow> nat \<Rightarrow> int \<times> handle \<Rightarrow> state \<Rightarrow> (int \<times> handle) \<times> state" where
  "open_loop e micro_dev retry_count prev st =
     (if retry_count < 3 then
        (case libusb_open e micro_dev (if retry_count > 0 then usleep 200000 st else st) of
           (r, h, st1) \<Rightarrow>
             if to_short r = 0 then ((to_short r, h), st1)
             else open_loop e micro_dev (retry_count + 1) (to_short r, h) st1)
      else (prev, st))"
  by pat_completeness auto
termination
  by (relation "measure (\<lambda>(e, micro_dev, retry_count, prev, st). 3 - retry_count)") auto

definition open_micro :: "env \<Rightarrow> state \<Rightarrow> opened \<times> state" where
  "open_micro e st =
     (if to_short (init_result e) \<noteq> 0 then
        (Exited At_init libusberr,
         emit Free_data_arr (emit (Perror ''libusb_init'') (emit (Libusb_init (init_result e)) st)))
      else
        (case search_loop e 0 Unassigned (emit (Libusb_init (init_result e)) st) of
           (Inl x, st1) \<Rightarrow> (x, st1)
         | (Inr (None, devs), st1) \<Rightarrow>
             FREE_AND_EXIT At_nodev devs (fprintf_stderr NODEV_ERR_MSG st1)
         | (Inr (Some micro_dev, devs), st1) \<Rightarrow>
             (case open_loop e micro_dev 0 (0, 0) st1 of
                ((errcode, h), st2) \<Rightarrow>
                  if errcode \<noteq> 0 then
                    FREE_AND_EXIT At_open devs
                      (fprintf_stderr (libusb_strerror e errcode @ [CHR 0x0A] @ OPEN_ERR_MSG) st2)
                  else
                    (case claim_dev_interface e h st2 of
                       (errcode', st3) \<Rightarrow>
                         if errcode' \<noteq> 0 then FREE_AND_EXIT At_claim devs (libusb_close h st3)
                         else
                           (case free_devs devs st3 of
                              None \<Rightarrow> (Bad_free, st3)
                            | Some (devs', st4) \<Rightarrow> (Returned h, st4))))))"

section \<open>Sending the packets\<close>

text \<open>
  The initializer of \<open>header_packet\<close> lists 32 of the \<open>PACKET_SIZE\<close> elements; C sets the
  elements it does not list to zero.
\<close>

definition header_packet :: "byte_t list" where
  "header_packet =
     [HEADER_CODE, DISPLAY_CODE, 0, 0, 0, 0, 0, 0, PACKET_CNT, 0, 0, 0,
      0, 0, 0, 0, 0, 0, 0, 0, 0, 0, 0, 0, 0, 0, 0, 0, 0, 0, 0, 0]
     @ replicate (PACKET_SIZE - 32) 0"

text \<open>
  \<open>memcpy(dst, src + off, n)\<close>: the new contents of \<open>dst\<close>, or \<open>None\<close> when the bytes read
  are not all inside \<open>src\<close> or the bytes written not all inside \<open>dst\<close>.
\<close>

definition memcpy :: "byte_t list \<Rightarrow> byte_t list \<Rightarrow> int \<Rightarrow> nat \<Rightarrow> byte_t list option" where
  "memcpy dst src off n =
     (if 0 \<le> off \<and> nat off + n \<le> length src \<and> n \<le> length dst
      then Some (take n (drop (nat off) src) @ drop n dst)
      else None)"

definition send_display_command :: "env \<Rightarrow> byte_t list \<Rightarrow> handle option \<Rightarrow> state \<Rightarrow> int \<times> state" where
  "send_display_command e packet h st =
     (case libusb_control_transfer e Header_packet h packet st of
        (sent, st1) \<Rightarrow> (to_short sent, st1))"

text \<open>
  The loop of \<open>display_data_arr\<close>; \<open>colcommand\<close> and \<open>endp\<close> are offsets from \<open>*data_arr\<close>.
\<close>

fun display_loop ::
  "nat \<Rightarrow> env \<Rightarrow> handle option \<Rightarrow> byte_t list \<Rightarrow> int \<Rightarrow> int \<Rightarrow> state \<Rightarrow> int outcome \<times> state" where
  "display_loop 0 e h packet colcommand endp st = (Out_of_fuel, st)"
| "display_loop (Suc fuel) e h packet colcommand endp st =
     (if colcommand < endp then
        (case read_nonstop e st of
           (ns, st1) \<Rightarrow>
             if ns then
               (case send_display_command e header_packet h st1 of
                  (sent, st2) \<Rightarrow>
                    if sent \<noteq> int PACKET_SIZE then (Done (- 1), st2)
                    else
                      (case memcpy packet (data_arr e) colcommand (2 * BYTE_STEP e) of
                         None \<Rightarrow> (Fault, st2)
                       | Some packet' \<Rightarrow>
                           (case libusb_control_transfer e (Data_packet colcommand) h packet' st2 of
                              (sent', st3) \<Rightarrow>
                                if to_short sent' \<noteq> int PACKET_SIZE then (Done (- 1), st3)
                                else display_loop fuel e h packet'
                                       (colcommand + 2 * int (BYTE_STEP e)) endp
                                       (usleep (1000 * 20) st3))))
             else (Done 0, st1))
      else (Done 0, st))"

definition display_data_arr ::
  "nat \<Rightarrow> env \<Rightarrow> handle option \<Rightarrow> int \<Rightarrow> int \<Rightarrow> state \<Rightarrow> int outcome \<times> state" where
  "display_data_arr fuel e h colcommand endp st =
     display_loop fuel e h (replicate PACKET_SIZE 0) colcommand endp st"

text \<open>The loop that opens the device in \<open>attempt_reconnect\<close>.\<close>

function reopen_loop :: "env \<Rightarrow> device \<Rightarrow> nat \<Rightarrow> state \<Rightarrow> handle option \<times> state" where
  "reopen_loop e micro_dev retry st =
     (if retry < 3 then
        (case libusb_open e micro_dev st of
           (errcode, h, st1) \<Rightarrow>
             if errcode = 0 then
               (case claim_dev_interface e h st1 of
                  (errcode', st2) \<Rightarrow>
                    if errcode' = 0 then (Some h, st2)
                    else reopen_loop e micro_dev (retry + 1) (usleep 200000 (libusb_close h st2)))
             else reopen_loop e micro_dev (retry + 1) (usleep 200000 st1))
      else (None, st))"
  by pat_completeness auto
termination
  by (relation "measure (\<lambda>(e, micro_dev, retry, st). 3 - retry)") auto

definition attempt_reconnect :: "env \<Rightarrow> state \<Rightarrow> handle option \<times> state" where
  "attempt_reconnect e st =
     (case libusb_get_device_list e st of
        (None, st1) \<Rightarrow> (None, st1)
      | (Some devs, st1) \<Rightarrow>
          (case dev_search devs st1 of
             (None, st2) \<Rightarrow> (None, libusb_free_device_list st2)
           | (Some micro_dev, st2) \<Rightarrow>
               (case reopen_loop e micro_dev 0 st2 of
                  (r, st3) \<Rightarrow> (r, libusb_free_device_list st3))))"

text \<open>
  The loop \<open>while(nonstop && current_handle == NULL)\<close> of \<open>send_packets\<close>; it returns
  \<open>current_handle\<close>.
\<close>

fun reconnect_loop ::
  "nat \<Rightarrow> env \<Rightarrow> handle option \<Rightarrow> state \<Rightarrow> handle option outcome \<times> state" where
  "reconnect_loop 0 e current_handle st = (Out_of_fuel, st)"
| "reconnect_loop (Suc fuel) e current_handle st =
     (case read_nonstop e st of
        (ns, st1) \<Rightarrow>
          if ns \<and> current_handle = None then
            (case attempt_reconnect e st1 of
               (Some new_handle, st2) \<Rightarrow> reconnect_loop fuel e (Some new_handle) st2
             | (None, st2) \<Rightarrow> reconnect_loop fuel e current_handle (usleep 2000000 st2))
          else (Done current_handle, st1))"

text \<open>The three calls that give a connection back.\<close>

definition release_and_close :: "handle option \<Rightarrow> state \<Rightarrow> state" where
  "release_and_close current_handle st =
     (case current_handle of
        None \<Rightarrow> st
      | Some h \<Rightarrow>
          libusb_close h (libusb_release_interface h 1 (libusb_release_interface h 0 st)))"

text \<open>
  The loop \<open>while(nonstop)\<close> of \<open>send_packets\<close>; it returns \<open>current_handle\<close>. Every pass
  calls \<open>display_data_arr\<close> with \<open>*data_arr\<close>, offset 0.
\<close>

fun send_packets_loop ::
  "nat \<Rightarrow> env \<Rightarrow> handle option \<Rightarrow> state \<Rightarrow> handle option outcome \<times> state" where
  "send_packets_loop 0 e current_handle st = (Out_of_fuel, st)"
| "send_packets_loop (Suc fuel) e current_handle st =
     (case read_nonstop e st of
        (ns, st1) \<Rightarrow>
          if ns then
            (case display_data_arr fuel e current_handle 0
                    (2 * int (BYTE_STEP e) * command_cnt e) st1 of
               (Out_of_fuel, st2) \<Rightarrow> (Out_of_fuel, st2)
             | (Fault, st2) \<Rightarrow> (Fault, st2)
             | (Done display_result, st2) \<Rightarrow>
                 if display_result \<noteq> 0 then
                   (case read_nonstop e st2 of
                      (ns', st3) \<Rightarrow>
                        if ns' then
                          (case reconnect_loop fuel e None
                                  (usleep 1000000 (release_and_close current_handle st3)) of
                             (Out_of_fuel, st4) \<Rightarrow> (Out_of_fuel, st4)
                           | (Fault, st4) \<Rightarrow> (Fault, st4)
                           | (Done new_handle, st4) \<Rightarrow> send_packets_loop fuel e new_handle st4)
                        else send_packets_loop fuel e current_handle st3)
                 else send_packets_loop fuel e current_handle st2)
          else (Done current_handle, st1))"

definition send_packets :: "nat \<Rightarrow> env \<Rightarrow> handle option \<Rightarrow> state \<Rightarrow> unit outcome \<times> state" where
  "send_packets fuel e h st =
     (case send_packets_loop fuel e h st of
        (Out_of_fuel, st1) \<Rightarrow> (Out_of_fuel, st1)
      | (Fault, st1) \<Rightarrow> (Fault, st1)
      | (Done current_handle, st1) \<Rightarrow> (Done (), release_and_close current_handle st1))"

section \<open>Properties of traces\<close>

fun is_data :: "event \<Rightarrow> bool" where
  "is_data (Control_transfer (Data_packet i) h buf r) = True"
| "is_data ev = False"

fun is_transfer :: "event \<Rightarrow> bool" where
  "is_transfer (Control_transfer k h buf r) = True"
| "is_transfer ev = False"

text \<open>The events of an attempt to find, open and claim the device.\<close>

fun connect_event :: "event \<Rightarrow> bool" where
  "connect_event Get_device_list = True"
| "connect_event Free_device_list = True"
| "connect_event (Usleep usec) = (usec = 10000 \<or> usec = 100000 \<or> usec = 200000)"
| "connect_event (Open_device d r h) = True"
| "connect_event (Claim_interface h i r) = True"
| "connect_event (Set_auto_detach h) = True"
| "connect_event (Release_interface h i) = True"
| "connect_event (Close h) = True"
| "connect_event (Fprintf_stderr msg) = True"
| "connect_event ev = False"

definition appends :: "(event \<Rightarrow> bool) \<Rightarrow> state \<Rightarrow> state \<Rightarrow> bool" where
  "appends Q st st' \<longleftrightarrow> (\<exists>evs. trace st' = trace st @ evs \<and> list_all Q evs)"

primrec monitor :: "('s \<Rightarrow> event \<Rightarrow> 's) \<Rightarrow> ('s \<Rightarrow> event \<Rightarrow> bool) \<Rightarrow> 's \<Rightarrow> event list \<Rightarrow> bool" where
  "monitor d ok s [] = True"
| "monitor d ok s (ev # evs) = (ok s ev \<and> monitor d ok (d s ev) evs)"

text \<open>Was the last transfer a header that went through?\<close>

fun header_sent :: "bool \<Rightarrow> event \<Rightarrow> bool" where
  "header_sent a (Control_transfer k h buf r) =
     (k = Header_packet \<and> buf = header_packet \<and> to_short r = int PACKET_SIZE)"
| "header_sent a ev = a"

text \<open>
  A header packet comes only when the last transfer was not a header that went through,
  a data packet only when it was.
\<close>

fun header_data_ok :: "bool \<Rightarrow> event \<Rightarrow> bool" where
  "header_data_ok a (Control_transfer Header_packet h buf r) = (\<not> a)"
| "header_data_ok a (Control_transfer (Data_packet i) h buf r) = a"
| "header_data_ok a ev = True"

text \<open>A header packet that went through: the header contents, 64 bytes transferred.\<close>

fun sent_header :: "event \<Rightarrow> bool" where
  "sent_header (Control_transfer Header_packet h buf r) =
     (buf = header_packet \<and> to_short r = int PACKET_SIZE)"
| "sent_header ev = False"

definition transfers :: "event list \<Rightarrow> event list" where
  "transfers tr = filter is_transfer tr"

text \<open>The events of the loop that reconnects.\<close>

fun recover_event :: "event \<Rightarrow> bool" where
  "recover_event (Read_nonstop b) = True"
| "recover_event (Usleep usec) =
     (usec = 10000 \<or> usec = 100000 \<or> usec = 200000 \<or> usec = 2000000)"
| "recover_event ev = connect_event ev"

text \<open>
  What the data packet built at offset \<open>i\<close> has to be: the \<open>2 * BYTE_STEP\<close> bytes of the
  stream from \<open>i\<close> on, then zeros up to \<open>PACKET_SIZE\<close>; the bytes read lie before the
  end handed to \<open>display_data_arr\<close> and inside the memory of \<open>data_arr\<close>.
\<close>

definition data_frame :: "env \<Rightarrow> int \<Rightarrow> byte_t list \<Rightarrow> bool" where
  "data_frame e i buf \<longleftrightarrow>
     0 \<le> i \<and> i + 2 * int (BYTE_STEP e) \<le> 2 * int (BYTE_STEP e) * command_cnt e
     \<and> nat i + 2 * BYTE_STEP e \<le> length (data_arr e)
     \<and> 2 * BYTE_STEP e \<le> PACKET_SIZE
     \<and> buf = take (2 * BYTE_STEP e) (drop (nat i) (data_arr e))
               @ replicate (PACKET_SIZE - 2 * BYTE_STEP e) 0"

fun stream_event :: "env \<Rightarrow> event \<Rightarrow> bool" where
  "stream_event e (Control_transfer Header_packet h buf r) = (buf = header_packet)"
| "stream_event e (Control_transfer (Data_packet i) h buf r) = data_frame e i buf"
| "stream_event e ev = True"

text \<open>A run for the examples: a compatible microphone and a stream of two-byte units.\<close>

definition demo_mic :: device where
  "demo_mic = \<lparr>dev_id = 1, descr_ret = 0, idVendor = 0x03f0, idProduct = 0x0f8b\<rparr>"

text \<open>
  \<open>demo_env cnt sig failing\<close>: \<open>cnt\<close> units, the signal at read \<open>sig\<close>, and every transfer
  moving 64 bytes but the one numbered \<open>failing\<close>, which times out
  (\<open>LIBUSB_ERROR_TIMEOUT\<close>, -7).
\<close>

definition demo_env :: "int \<Rightarrow> nat option \<Rightarrow> nat option \<Rightarrow> env" where
  "demo_env cnt sig failing =
     \<lparr>BYTE_STEP = 1, data_arr = [0x11, 0x12, 0x21, 0x22, 0x31, 0x32], command_cnt = cnt,
      signal_at = sig, transfer_result = (\<lambda>n. if Some n = failing then - 7 else 64),
      device_list_result = (\<lambda>n. Some [demo_mic]),
      open_result = (\<lambda>n. 0), claim_result = (\<lambda>n. 0), init_result = 0,
      libusb_strerror = (\<lambda>n. ''error'')\<rparr>"

text \<open>The same world where every claim of an interface is refused with the code \<open>r\<close>.\<close>

definition refusing_env :: "int \<Rightarrow> env" where
  "refusing_env r = (demo_env 1 None None)\<lparr>claim_result := (\<lambda>n. r)\<rparr>"

text \<open>The same world with no device on the bus.\<close>

definition empty_bus_env :: "nat option \<Rightarrow> nat option \<Rightarrow> env" where
  "empty_bus_env sig failing = (demo_env 1 sig failing)\<lparr>device_list_result := (\<lambda>n. Some [])\<rparr>"

text \<open>What a run has written to \<open>stderr\<close>, one entry per call of \<open>fprintf\<close> or \<open>perror\<close>
  (for \<open>perror\<close> the prefix it was given).\<close>

fun stderr_text :: "event \<Rightarrow> string list" where
  "stderr_text (Fprintf_stderr msg) = [msg]"
| "stderr_text (Perror s) = [s]"
| "stderr_text ev = []"

definition stderr_output :: "event list \<Rightarrow> string list" where
  "stderr_output tr = concat (map stderr_text tr)"




text \<open>The number of data packets among the events.\<close>

definition ndata :: "event list \<Rightarrow> nat" where
  "ndata tr = length (filter is_data tr)"

text \<open>Has a read of \<open>nonstop\<close> seen 0? And what may follow once one has.\<close>

fun stop_seen :: "bool \<Rightarrow> event \<Rightarrow> bool" where
  "stop_seen b (Read_nonstop c) = (b \<or> \<not> c)"
| "stop_seen b ev = b"

fun after_stop_ok :: "bool \<Rightarrow> event \<Rightarrow> bool" where
  "after_stop_ok b (Read_nonstop c) = (b \<longrightarrow> \<not> c)"
| "after_stop_ok b (Release_interface h i) = True"
| "after_stop_ok b (Close h) = True"
| "after_stop_ok b ev = (\<not> b)"

fun shutdown_event :: "event \<Rightarrow> bool" where
  "shutdown_event (Read_nonstop c) = (\<not> c)"
| "shutdown_event (Release_interface h i) = True"
| "shutdown_event (Close h) = True"
| "shutdown_event ev = False"

definition stop_inv :: "env \<Rightarrow> state \<Rightarrow> bool" where
  "stop_inv e st \<longleftrightarrow>
     monitor stop_seen after_stop_ok False (trace st)
     \<and> (foldl stop_seen False (trace st) \<longrightarrow> \<not> nonstop_at e (nreads st))"

text \<open>
  The connections a run holds: the handles that are open and the interfaces that are
  claimed, followed through the events.
\<close>

fun connection_step ::
  "handle set \<times> (handle \<times> nat) set \<Rightarrow> event \<Rightarrow> handle set \<times> (handle \<times> nat) set" where
  "connection_step (H, C) (Open_device d r h) = (if r = 0 then (insert h H, C) else (H, C))"
| "connection_step (H, C) (Close h) = (H - {h}, C)"
| "connection_step (H, C) (Claim_interface h i r) =
     (if r = 0 then (H, insert (h, i) C) else (H, C))"
| "connection_step (H, C) (Release_interface h i) = (H, C - {(h, i)})"
| "connection_step (H, C) ev = (H, C)"

text \<open>What \<open>current_handle\<close> stands for: the open handle with its two interfaces.\<close>

fun connection_of :: "handle option \<Rightarrow> handle set \<times> (handle \<times> nat) set" where
  "connection_of None = ({}, {})"
| "connection_of (Some h) = ({h}, {(h, 0), (h, 1)})"

text \<open>
  The longest an event can take, in microseconds, for the calls that wait: the timeout
  for a control transfer, the time asked for a sleep.
\<close>

fun worst_usec :: "event \<Rightarrow> nat" where
  "worst_usec (Control_transfer k h buf r) = 1000 * TIMEOUT"
| "worst_usec (Usleep usec) = usec"
| "worst_usec ev = 0"

text \<open>The events of the three calls that give a connection back.\<close>

fun release_events :: "handle option \<Rightarrow> event list" where
  "release_events None = []"
| "release_events (Some h) = [Release_interface h 0, Release_interface h 1, Close h]"

text \<open>A device list without a supported microphone, or no list at all.\<close>

definition device_absent :: "device list option \<Rightarrow> bool" where
  "device_absent l =
     (case l of None \<Rightarrow> True | Some devs \<Rightarrow> list_all (\<lambda>d. is_compatible_mic d = 0) devs)"

text \<open>The events of an attempt to reconnect that finds no device in the list \<open>l\<close>.\<close>

fun lookup_events :: "device list option \<Rightarrow> event list" where
  "lookup_events None = [Get_device_list]"
| "lookup_events (Some devs) =
     Get_device_list # replicate (length devs) (Usleep 10000) @ [Free_device_list]"

text \<open>
  \<open>n\<close> failed attempts in a row, the first with the device list numbered \<open>k\<close>: each is a
  read of \<open>nonstop\<close> that sees 1, the attempt, and the wait of two seconds.
\<close>

primrec retries :: "env \<Rightarrow> nat \<Rightarrow> nat \<Rightarrow> event list" where
  "retries e k 0 = []"
| "retries e k (Suc n) =
     Read_nonstop True # lookup_events (device_list_result e k) @ [Usleep 2000000]
       @ retries e (Suc k) n"

text \<open>A control transfer that did not move the 64 bytes of the packet.\<close>

fun failed_transfer :: "event \<Rightarrow> bool" where
  "failed_transfer (Control_transfer k h buf r) = (to_short r \<noteq> int PACKET_SIZE)"
| "failed_transfer ev = False"

text \<open>Does \<open>devs\<close> point to a list that is allocated?\<close>

fun allocated :: "devs_ptr \<Rightarrow> bool" where
  "allocated (Allocated l) = True"
| "allocated devs = False"

text \<open>
  Where a run stands since its last read of \<open>nonstop\<close>: nothing has happened yet, only
  calls that release, wait or reconnect, a header packet, a header and a data packet, or
  both and the pacing delay.
\<close>

datatype phase = Fresh | Recovering | After_header | After_data | After_pacing

fun phase_step :: "phase \<Rightarrow> event \<Rightarrow> phase" where
  "phase_step p (Read_nonstop c) = Fresh"
| "phase_step p (Control_transfer Header_packet h buf r) = After_header"
| "phase_step p (Control_transfer (Data_packet i) h buf r) = After_data"
| "phase_step p (Usleep usec) = (if p = After_data then After_pacing else Recovering)"
| "phase_step p ev = Recovering"

text \<open>
  What may come next: a read at any time; a header only right after a read, a data packet
  only right after a header, the pacing delay of 20 ms after the data packet, and any
  other call only when no packet was sent since the last read.
\<close>

fun phase_ok :: "phase \<Rightarrow> event \<Rightarrow> bool" where
  "phase_ok p (Read_nonstop c) = True"
| "phase_ok p (Control_transfer Header_packet h buf r) = (p = Fresh)"
| "phase_ok p (Control_transfer (Data_packet i) h buf r) = (p = After_header)"
| "phase_ok p (Usleep usec) = (if p = After_data then usec = 1000 * 20
                               else p = Fresh \<or> p = Recovering)"
| "phase_ok p ev = (p = Fresh \<or> p = Recovering)"

fun is_read :: "event \<Rightarrow> bool" where
  "is_read (Read_nonstop c) = True"
| "is_read ev = False"

text \<open>
  The longest the waiting calls among the events can take together, in microseconds.
\<close>

definition waited :: "event list \<Rightarrow> nat" where
  "waited evs = sum_list (map worst_usec evs)"

section \<open>The device matcher against the identity table\<close>

lemma product_id_scan_iff: "product_id_scan pid xs = (if pid \<in> set xs then 1 else 0)"
  by (induction xs) auto

text \<open>
  Claim C8. The device matcher accepts a device (returns 1) exactly when its descriptor
  can be read and its (vendor, product) pair is one of the six pairs of the identity
  table; every other pair, also a listed vendor with an unlisted product, gives 0, and a
  device whose descriptor cannot be read gives 0, a plain result and not an error.
\<close>

theorem is_compatible_mic_table:
  "is_compatible_mic dev =
     (if descr_ret dev < 0 then 0
      else if (idVendor dev, idProduct dev) \<in> set identity_table then 1 else 0)"
  by (simp add: is_compatible_mic_def product_id_scan_iff identity_table_def
      DEV_VID_KINGSTON_def DEV_VID_HP_def product_ids_kingston_def product_ids_hp_def)

theorem is_compatible_mic_table_witness:
  "is_compatible_mic \<lparr>dev_id = 0, descr_ret = 0, idVendor = 0x03f0, idProduct = 0x098c\<rparr> = 1
   \<and> is_compatible_mic \<lparr>dev_id = 0, descr_ret = 0, idVendor = 0x03f0, idProduct = 0x171f\<rparr> = 0
   \<and> is_compatible_mic \<lparr>dev_id = 0, descr_ret = - 1, idVendor = 0x0951, idProduct = 0x171f\<rparr> = 0"
  by (simp add: is_compatible_mic_table identity_table_def)

section \<open>Auxiliary facts\<close>

declare claim_loop.simps [simp del] search_loop.simps [simp del] open_loop.simps [simp del]
  reopen_loop.simps [simp del]

lemmas prim_defs = emit_def usleep_def read_nonstop_def libusb_control_transfer_def
  libusb_release_interface_def libusb_close_def libusb_claim_interface_def libusb_open_def
  libusb_get_device_list_def libusb_free_device_list_def fprintf_stderr_def
  send_display_command_def release_and_close_def

lemma appends_refl: "appends Q st st"
  by (simp add: appends_def)

lemma appends_trans: "appends Q st st1 \<Longrightarrow> appends Q st1 st2 \<Longrightarrow> appends Q st st2"
  by (auto simp: appends_def)

lemma appends_emit: "Q ev \<Longrightarrow> appends Q st (emit ev st)"
  by (simp add: appends_def emit_def)

lemma appends_emit_after: "appends Q st st1 \<Longrightarrow> Q ev \<Longrightarrow> appends Q st (emit ev st1)"
  by (auto simp: appends_def emit_def)

lemma dev_search_appends: "appends connect_event st (snd (dev_search devs st))"
proof (induction devs arbitrary: st)
  case Nil
  show ?case by (simp add: appends_refl)
next
  case (Cons dev devs)
  have step: "appends connect_event st (usleep 10000 st)"
    by (simp add: usleep_def appends_emit)
  show ?case
    using step appends_trans [OF step Cons.IH [of "usleep 10000 st"]] by simp
qed

lemma claim_interface_appends:
  "appends connect_event st st1 \<Longrightarrow>
   appends connect_event st (snd (libusb_claim_interface e h i st1))"
  by (auto simp: appends_def libusb_claim_interface_def emit_def)

lemma release_interface_appends:
  "appends connect_event st st1 \<Longrightarrow>
   appends connect_event st (libusb_release_interface h i st1)"
  by (auto simp: appends_def libusb_release_interface_def emit_def)

lemma usleep_connect_appends:
  "appends connect_event st st1 \<Longrightarrow> usec = 10000 \<or> usec = 100000 \<or> usec = 200000 \<Longrightarrow>
   appends connect_event st (usleep usec st1)"
  by (auto simp: appends_def usleep_def emit_def)

lemma claim_loop_appends:
  "appends connect_event st0 st \<Longrightarrow>
   appends connect_event st0 (snd (claim_loop e h retry errs st))"
proof (induction e h retry errs st rule: claim_loop.induct)
  case (1 e h retry errs st)
  show ?case
    apply (subst claim_loop.simps)
    using 1 
    apply (auto simp: prim_defs appends_def split: prod.splits)
    done
qed

lemma claim_dev_interface_appends:
  "appends connect_event st0 st \<Longrightarrow>
   appends connect_event st0 (snd (claim_dev_interface e h st))"
  using claim_loop_appends [of st0 "emit (Set_auto_detach h) st" e h 0 "(0, 0)"]
  by (auto simp: claim_dev_interface_def appends_def prim_defs split: prod.splits sum.splits)

lemma open_appends:
  "appends connect_event st0 st \<Longrightarrow> libusb_open e dev st = (errcode, h, st1) \<Longrightarrow>
   appends connect_event st0 st1"
  by (auto simp: appends_def libusb_open_def emit_def)

lemma close_appends:
  "appends connect_event st0 st \<Longrightarrow> appends connect_event st0 (libusb_close h st)"
  by (auto simp: appends_def libusb_close_def emit_def)

lemma free_device_list_appends:
  "appends connect_event st0 st \<Longrightarrow> appends connect_event st0 (libusb_free_device_list st)"
  by (auto simp: appends_def libusb_free_device_list_def emit_def)

lemma reopen_loop_appends:
  "appends connect_event st0 st \<Longrightarrow>
   appends connect_event st0 (snd (reopen_loop e dev retry st))"
proof (induction "3 - retry" arbitrary: retry st)
  case 0
  then show ?case by (subst reopen_loop.simps) simp
next
  case (Suc n)
  obtain errcode h st1 where o: "libusb_open e dev st = (errcode, h, st1)"
    by (cases "libusb_open e dev st")
  obtain errcode' st2 where c: "claim_dev_interface e h st1 = (errcode', st2)"
    by (cases "claim_dev_interface e h st1")
  have a1: "appends connect_event st0 st1"
    using open_appends [OF Suc.prems o] .
  have a2: "appends connect_event st0 st2"
    using claim_dev_interface_appends [OF a1, of e h] c by simp
  have n: "n = 3 - (retry + 1)" "retry < 3"
    using Suc.hyps(2) by arith+
  have r1: "appends connect_event st0
              (snd (reopen_loop e dev (retry + 1) (usleep 200000 st1)))"
    by (rule Suc.hyps(1) [OF n(1)]) (simp add: a1 usleep_connect_appends)
  have r2: "appends connect_event st0
              (snd (reopen_loop e dev (retry + 1) (usleep 200000 (libusb_close h st2))))"
    by (rule Suc.hyps(1) [OF n(1)]) (simp add: a2 close_appends usleep_connect_appends)
  show ?case
    using n(2) o c a2 r1 r2 by (subst reopen_loop.simps) simp
qed

lemma attempt_reconnect_appends:
  "appends connect_event st (snd (attempt_reconnect e st))"
proof -
  obtain r st1 where g: "libusb_get_device_list e st = (r, st1)"
    by (cases "libusb_get_device_list e st")
  have a1: "appends connect_event st st1"
    using g by (auto simp: appends_def libusb_get_device_list_def emit_def)
  show ?thesis
  proof (cases r)
    case None
    then show ?thesis using g a1 by (simp add: attempt_reconnect_def)
  next
    case (Some devs)
    obtain m st2 where d: "dev_search devs st1 = (m, st2)"
      by (cases "dev_search devs st1")
    have a2: "appends connect_event st st2"
      using appends_trans [OF a1 dev_search_appends [of st1 devs]] d by simp
    show ?thesis
    proof (cases m)
      case None
      then show ?thesis
        using g Some d a2 by (simp add: attempt_reconnect_def free_device_list_appends)
    next
      case (Some micro_dev)
      have "appends connect_event st (snd (reopen_loop e micro_dev 0 st2))"
        by (rule reopen_loop_appends [OF a2])
      then show ?thesis
        using g \<open>r = Some devs\<close> d Some
        by (auto simp: attempt_reconnect_def free_device_list_appends split: prod.splits)
    qed
  qed
qed


lemma monitor_append [simp]:
  "monitor d ok s (xs @ ys) = (monitor d ok s xs \<and> monitor d ok (foldl d s xs) ys)"
  by (induction xs arbitrary: s) auto

lemma appends_mono:
  "appends Q st st' \<Longrightarrow> (\<And>ev. Q ev \<Longrightarrow> Q' ev) \<Longrightarrow> appends Q' st st'"
  by (auto simp: appends_def list_all_iff)

lemma connect_imp_recover: "connect_event ev \<Longrightarrow> recover_event ev"
  by (cases ev) auto

lemma reconnect_loop_appends:
  "appends recover_event st0 st \<Longrightarrow>
   appends recover_event st0 (snd (reconnect_loop fuel e cur st))"
proof (induction fuel arbitrary: st cur)
  case 0
  then show ?case by simp
next
  case (Suc fuel)
  obtain ns st1 where r: "read_nonstop e st = (ns, st1)"
    by (cases "read_nonstop e st")
  have a1: "appends recover_event st0 st1"
    using Suc.prems r by (auto simp: appends_def read_nonstop_def emit_def)
  obtain res st2 where a: "attempt_reconnect e st1 = (res, st2)"
    by (cases "attempt_reconnect e st1")
  have a2: "appends recover_event st0 st2"
    using appends_trans [OF a1 appends_mono [OF attempt_reconnect_appends [of st1 e]]] a
    by (simp add: connect_imp_recover)
  have a3: "appends recover_event st0 (usleep 2000000 st2)"
    using a2 by (auto simp: appends_def usleep_def emit_def)
  show ?case
    using r a a1 Suc.IH [OF a2] Suc.IH [OF a3]
    by (auto split: option.splits)
qed

lemma recover_not_transfer: "recover_event ev \<Longrightarrow> \<not> is_transfer ev"
  by (cases ev) auto

text \<open>The state of the packet buffer and of \<open>colcommand\<close> at the head of the loop.\<close>

lemma memcpy_frame:
  assumes "memcpy packet (data_arr e) colcommand (2 * BYTE_STEP e) = Some packet'"
      and "length packet = PACKET_SIZE"
      and "drop (2 * BYTE_STEP e) packet = replicate (PACKET_SIZE - 2 * BYTE_STEP e) 0"
  shows "packet' = take (2 * BYTE_STEP e) (drop (nat colcommand) (data_arr e))
                     @ replicate (PACKET_SIZE - 2 * BYTE_STEP e) 0"
    and "length packet' = PACKET_SIZE"
    and "drop (2 * BYTE_STEP e) packet' = replicate (PACKET_SIZE - 2 * BYTE_STEP e) 0"
    and "0 \<le> colcommand"
    and "nat colcommand + 2 * BYTE_STEP e \<le> length (data_arr e)"
    and "2 * BYTE_STEP e \<le> PACKET_SIZE"
  using assms by (auto simp: memcpy_def split: if_splits)

lemma next_offset:
  fixes colcommand endp :: int
  assumes "colcommand < endp" and "2 * int n dvd endp - colcommand"
  shows "colcommand + 2 * int n \<le> endp" and "2 * int n dvd endp - (colcommand + 2 * int n)"
proof -
  have "0 < endp - colcommand"
    using assms(1) by simp
  then have "2 * int n \<le> endp - colcommand"
    using assms(2) by (rule zdvd_imp_le [rotated])
  then show "colcommand + 2 * int n \<le> endp"
    by simp
  have "2 * int n dvd (endp - colcommand) - 2 * int n"
    using assms(2) by (rule dvd_diff) simp
  then show "2 * int n dvd endp - (colcommand + 2 * int n)"
    by (simp add: algebra_simps)
qed

lemma display_loop_stream:
  assumes "list_all (stream_event e) (trace st)"
      and "length packet = PACKET_SIZE"
      and "drop (2 * BYTE_STEP e) packet = replicate (PACKET_SIZE - 2 * BYTE_STEP e) 0"
      and "2 * int (BYTE_STEP e) dvd 2 * int (BYTE_STEP e) * command_cnt e - colcommand"
  shows "list_all (stream_event e)
           (trace (snd (display_loop fuel e h packet colcommand
                          (2 * int (BYTE_STEP e) * command_cnt e) st)))"
  using assms
proof (induction fuel arbitrary: st packet colcommand)
  case 0
  then show ?case by simp
next
  case (Suc fuel)
  let ?endp = "2 * int (BYTE_STEP e) * command_cnt e"
  show ?case
  proof (cases "colcommand < ?endp")
    case False
    then show ?thesis using Suc.prems(1) by simp
  next
    case True
    note nx = next_offset [OF True Suc.prems(4)]
    show ?thesis
    proof (cases "memcpy packet (data_arr e) colcommand (2 * BYTE_STEP e)")
      case None
      then show ?thesis
        using True Suc.prems(1) by (auto simp: prim_defs)
    next
      case (Some packet')
      note mf = memcpy_frame [OF Some Suc.prems(2,3)]
      have df: "data_frame e colcommand packet'"
        using mf nx(1) by (simp add: data_frame_def)
      show ?thesis
        using True Some Suc.prems(1) df mf(2,3) nx(2)
        by (auto simp: prim_defs intro!: Suc.IH)
    qed
  qed
qed

lemma recover_imp_stream: "recover_event ev \<Longrightarrow> stream_event e ev"
  by (cases ev) auto

lemma stream_appends:
  assumes "appends recover_event st st'" and "list_all (stream_event e) (trace st)"
  shows "list_all (stream_event e) (trace st')"
  using assms by (auto simp: appends_def list_all_iff recover_imp_stream)

lemma send_packets_loop_stream:
  "list_all (stream_event e) (trace st) \<Longrightarrow>
   list_all (stream_event e) (trace (snd (send_packets_loop fuel e cur st)))"
proof (induction fuel arbitrary: st cur)
  case 0
  then show ?case by simp
next
  case (Suc fuel)
  let ?M = "\<lambda>s. list_all (stream_event e) (trace s)"
  let ?endp = "2 * int (BYTE_STEP e) * command_cnt e"
  obtain ns st1 where r: "read_nonstop e st = (ns, st1)"
    by (cases "read_nonstop e st")
  have m1: "?M st1"
    using Suc.prems r by (auto simp: prim_defs)
  obtain out st2 where d: "display_data_arr fuel e cur 0 ?endp st1 = (out, st2)"
    by (cases "display_data_arr fuel e cur 0 ?endp st1")
  have m2: "?M st2"
    using display_loop_stream [OF m1, of "replicate PACKET_SIZE 0" 0 fuel cur] d
    by (simp add: display_data_arr_def)
  obtain ns' st3 where r': "read_nonstop e st2 = (ns', st3)"
    by (cases "read_nonstop e st2")
  have m3: "?M st3"
    using m2 r' by (auto simp: prim_defs)
  let ?st4 = "usleep 1000000 (release_and_close cur st3)"
  have m4: "?M ?st4"
    using m3 by (auto simp: prim_defs split: option.splits)
  obtain out' st5 where rl: "reconnect_loop fuel e None ?st4 = (out', st5)"
    by (cases "reconnect_loop fuel e None ?st4")
  have m5: "?M st5"
    using stream_appends [OF _ m4, of st5]
      reconnect_loop_appends [OF appends_refl, of ?st4 fuel e None] rl
    by simp
  show ?case
    using r d r' rl m1 m2 m3 m5 Suc.IH
    by (auto split: outcome.splits)
qed

lemma send_packets_stream:
  "list_all (stream_event e) (trace st) \<Longrightarrow>
   list_all (stream_event e) (trace (snd (send_packets fuel e cur st)))"
  using send_packets_loop_stream [of e st fuel cur]
  by (auto simp: send_packets_def prim_defs split: prod.splits outcome.splits option.splits)


lemmas run_defs = demo_env_def demo_mic_def refusing_env_def empty_bus_env_def init_state_def send_packets_def
  display_data_arr_def nonstop_at_def prim_defs to_short_def memcpy_def header_packet_def
  PACKET_SIZE_def HEADER_CODE_def DISPLAY_CODE_def PACKET_CNT_def attempt_reconnect_def
  claim_dev_interface_def is_compatible_mic_def DEV_VID_KINGSTON_def DEV_VID_HP_def
  product_ids_hp_def product_ids_kingston_def claim_loop.simps reopen_loop.simps

lemma header_packet_bytes:
  "header_packet = [0x04, 0xf2] @ replicate 6 0 @ [0x01] @ replicate 55 0"
  by (simp add: header_packet_def HEADER_CODE_def DISPLAY_CODE_def PACKET_CNT_def
      PACKET_SIZE_def replicate_append_same numeral_eq_Suc)

lemma header_packet_nth:
  "i < 64 \<Longrightarrow>
   header_packet ! i = (if i = 0 then 0x04 else if i = 1 then 0xf2 else if i = 8 then 0x01 else 0)"
  by (auto simp: header_packet_bytes nth_append nth_Cons' )

text \<open>
  Claim C5. Every header packet handed to a control transfer is a buffer of exactly 64
  bytes with byte 0 = 0x04, byte 1 = 0xf2, byte 8 = 0x01 and every other byte zero, the
  bytes 32 to 63 that the initializer does not list included.
\<close>

theorem header_frame_bytes:
  assumes "Control_transfer Header_packet h buf r
             \<in> set (trace (snd (send_packets fuel e h0 init_state)))"
  shows "length buf = 64 \<and> buf ! 0 = 0x04 \<and> buf ! 1 = 0xf2 \<and> buf ! 8 = 0x01
         \<and> (\<forall>i<64. i \<noteq> 0 \<and> i \<noteq> 1 \<and> i \<noteq> 8 \<longrightarrow> buf ! i = 0)"
proof -
  have "list_all (stream_event e) (trace (snd (send_packets fuel e h0 init_state)))"
    by (rule send_packets_stream) (simp add: init_state_def)
  then have "stream_event e (Control_transfer Header_packet h buf r)"
    using assms by (auto simp: list_all_iff)
  then have buf: "buf = header_packet"
    by simp
  have "length header_packet = 64"
    by (simp add: header_packet_bytes)
  then show ?thesis
    using buf by (simp add: header_packet_nth)
qed

theorem header_frame_bytes_witness:
  "Control_transfer Header_packet (Some 0) header_packet 64
     \<in> set (trace (snd (send_packets (Suc (Suc 0)) (demo_env 1 None None) (Some 0) init_state)))
   \<and> length header_packet = 64 \<and> header_packet ! 0 = 0x04 \<and> header_packet ! 1 = 0xf2
   \<and> header_packet ! 8 = 0x01 \<and> header_packet ! 2 = 0 \<and> header_packet ! 32 = 0
   \<and> header_packet ! 63 = 0"
proof -
  have m: "Control_transfer Header_packet (Some 0) header_packet 64
     \<in> set (trace (snd (send_packets (Suc (Suc 0)) (demo_env 1 None None) (Some 0) init_state)))"
    by (simp add: run_defs)
  show ?thesis
    using m header_frame_bytes [OF m] by simp
qed


lemma display_loop_no_fault:
  assumes "length packet = PACKET_SIZE" and "2 * BYTE_STEP e \<le> PACKET_SIZE"
      and "2 * int (BYTE_STEP e) dvd endp - colcommand" and "0 \<le> colcommand"
      and "endp \<le> int (length (data_arr e))"
  shows "fst (display_loop fuel e h packet colcommand endp st) \<noteq> Fault"
  using assms
proof (induction fuel arbitrary: st packet colcommand)
  case 0
  then show ?case by simp
next
  case (Suc fuel)
  show ?case
  proof (cases "colcommand < endp")
    case False
    then show ?thesis by simp
  next
    case True
    note nx = next_offset [OF True Suc.prems(3)]
    have "nat colcommand + 2 * BYTE_STEP e \<le> length (data_arr e)"
      using nx(1) Suc.prems(4,5) by linarith
    then obtain packet' where m: "memcpy packet (data_arr e) colcommand (2 * BYTE_STEP e) = Some packet'"
      and l: "length packet' = PACKET_SIZE"
      using Suc.prems(1,2,4) by (auto simp: memcpy_def)
    have "fst (display_loop fuel e h packet' (colcommand + 2 * int (BYTE_STEP e)) endp st') \<noteq> Fault"
      for st'
      by (rule Suc.IH [OF l Suc.prems(2) nx(2) _ Suc.prems(5)]) (use Suc.prems(4) in simp)
    then show ?thesis
      using True m by (auto simp: prim_defs)
  qed
qed

lemma reconnect_loop_no_fault: "fst (reconnect_loop fuel e cur st) \<noteq> Fault"
  by (induction fuel arbitrary: st cur) (auto split: prod.splits option.splits)

lemma send_packets_loop_no_fault:
  assumes "2 * BYTE_STEP e \<le> PACKET_SIZE"
      and "2 * int (BYTE_STEP e) * command_cnt e \<le> int (length (data_arr e))"
  shows "fst (send_packets_loop fuel e cur st) \<noteq> Fault"
proof (induction fuel arbitrary: st cur)
  case 0
  show ?case by simp
next
  case (Suc fuel)
  let ?endp = "2 * int (BYTE_STEP e) * command_cnt e"
  obtain ns st1 where r: "read_nonstop e st = (ns, st1)"
    by (cases "read_nonstop e st")
  obtain out st2 where d: "display_data_arr fuel e cur 0 ?endp st1 = (out, st2)"
    by (cases "display_data_arr fuel e cur 0 ?endp st1")
  have "fst (display_data_arr fuel e cur 0 ?endp st1) \<noteq> Fault"
    unfolding display_data_arr_def
    by (rule display_loop_no_fault) (use assms in \<open>simp_all add: PACKET_SIZE_def\<close>)
  then have nf: "out \<noteq> Fault"
    using d by simp
  obtain ns' st3 where r': "read_nonstop e st2 = (ns', st3)"
    by (cases "read_nonstop e st2")
  let ?st4 = "usleep 1000000 (release_and_close cur st3)"
  obtain out' st5 where rl: "reconnect_loop fuel e None ?st4 = (out', st5)"
    by (cases "reconnect_loop fuel e None ?st4")
  have nf': "out' \<noteq> Fault"
    using reconnect_loop_no_fault [of fuel e None ?st4] rl by simp
  show ?case
    using r d r' rl nf nf' Suc.IH
    by (auto split: outcome.splits)
qed


lemma data_frame_nth:
  assumes "data_frame e i buf"
  shows "length buf = PACKET_SIZE"
    and "j < 2 * BYTE_STEP e \<Longrightarrow> buf ! j = data_arr e ! (nat i + j)"
    and "2 * BYTE_STEP e \<le> j \<Longrightarrow> j < PACKET_SIZE \<Longrightarrow> buf ! j = 0"
proof -
  let ?n = "2 * BYTE_STEP e"
  let ?src = "take ?n (drop (nat i) (data_arr e))"
  have buf: "buf = ?src @ replicate (PACKET_SIZE - ?n) 0"
    and n: "?n \<le> PACKET_SIZE" and inside: "nat i + ?n \<le> length (data_arr e)"
    using assms by (simp_all add: data_frame_def)
  have len: "length ?src = ?n"
    using inside by simp
  show "length buf = PACKET_SIZE"
    using n inside by (simp add: buf)
  show "buf ! j = data_arr e ! (nat i + j)" if "j < ?n"
    using that inside by (simp add: buf nth_append)
  show "buf ! j = 0" if "?n \<le> j" "j < PACKET_SIZE"
    using that inside by (simp add: buf nth_append)
qed

text \<open>
  Claim C6. The data packet sent from stream offset \<open>i\<close> is a buffer of 64 bytes whose
  first \<open>2 * BYTE_STEP\<close> bytes are the stream bytes at \<open>i\<close>, ..., \<open>i + 2 * BYTE_STEP - 1\<close>
  and whose other bytes are zero; the bytes read lie before the end handed to
  \<open>display_data_arr\<close> (and inside the memory of the stream). When the declared stream
  lies inside that memory and a unit fits the packet, no \<open>memcpy\<close> of the run leaves its
  buffers.
\<close>

theorem data_frame_contents:
  "(Control_transfer (Data_packet i) h buf r
      \<in> set (trace (snd (send_packets fuel e h0 init_state))) \<longrightarrow>
      length buf = PACKET_SIZE
      \<and> (\<forall>j < 2 * BYTE_STEP e. buf ! j = data_arr e ! (nat i + j))
      \<and> (\<forall>j. 2 * BYTE_STEP e \<le> j \<and> j < PACKET_SIZE \<longrightarrow> buf ! j = 0)
      \<and> 0 \<le> i \<and> i + 2 * int (BYTE_STEP e) \<le> 2 * int (BYTE_STEP e) * command_cnt e
      \<and> nat i + 2 * BYTE_STEP e \<le> length (data_arr e))
   \<and> (2 * BYTE_STEP e \<le> PACKET_SIZE
        \<and> 2 * int (BYTE_STEP e) * command_cnt e \<le> int (length (data_arr e)) \<longrightarrow>
      fst (send_packets fuel e h0 init_state) \<noteq> Fault)"
proof (intro conjI impI)
  assume "2 * BYTE_STEP e \<le> PACKET_SIZE
          \<and> 2 * int (BYTE_STEP e) * command_cnt e \<le> int (length (data_arr e))"
  then have "fst (send_packets_loop fuel e h0 init_state) \<noteq> Fault"
    by (intro send_packets_loop_no_fault) simp_all
  then show "fst (send_packets fuel e h0 init_state) \<noteq> Fault"
    by (auto simp: send_packets_def split: prod.splits outcome.splits)
next
  assume ev: "Control_transfer (Data_packet i) h buf r
                \<in> set (trace (snd (send_packets fuel e h0 init_state)))"
  have "list_all (stream_event e) (trace (snd (send_packets fuel e h0 init_state)))"
    by (rule send_packets_stream) (simp add: init_state_def)
  then have "stream_event e (Control_transfer (Data_packet i) h buf r)"
    using ev by (auto simp: list_all_iff)
  then have df: "data_frame e i buf"
    by simp
  show "length buf = PACKET_SIZE"
    by (rule data_frame_nth(1) [OF df])
  show "\<forall>j < 2 * BYTE_STEP e. buf ! j = data_arr e ! (nat i + j)"
    using data_frame_nth(2) [OF df] by simp
  show "\<forall>j. 2 * BYTE_STEP e \<le> j \<and> j < PACKET_SIZE \<longrightarrow> buf ! j = 0"
    using data_frame_nth(3) [OF df] by simp
  show "0 \<le> i" "i + 2 * int (BYTE_STEP e) \<le> 2 * int (BYTE_STEP e) * command_cnt e"
    "nat i + 2 * BYTE_STEP e \<le> length (data_arr e)"
    using df by (simp_all add: data_frame_def)
qed

theorem data_frame_contents_witness:
  "Control_transfer (Data_packet 2) (Some 0) ([0x21, 0x22] @ replicate 62 0) 64
     \<in> set (trace (snd (send_packets (Suc (Suc (Suc 0))) (demo_env 2 None None)
                          (Some 0) init_state)))
   \<and> ([0x21, 0x22] @ replicate 62 (0 :: byte_t)) ! 1
       = data_arr (demo_env 2 None None) ! (nat 2 + 1)
   \<and> fst (send_packets (Suc (Suc (Suc 0))) (demo_env 2 None None) (Some 0) init_state)
       \<noteq> Fault"
proof -
  let ?e = "demo_env 2 None None"
  have m: "Control_transfer (Data_packet 2) (Some 0) ([0x21, 0x22] @ replicate 62 0) 64
     \<in> set (trace (snd (send_packets (Suc (Suc (Suc 0))) ?e (Some 0) init_state)))"
    by (simp add: run_defs)
  have b: "2 * BYTE_STEP ?e \<le> PACKET_SIZE
           \<and> 2 * int (BYTE_STEP ?e) * command_cnt ?e \<le> int (length (data_arr ?e))"
    and j: "1 < 2 * BYTE_STEP ?e"
    by (simp_all add: demo_env_def PACKET_SIZE_def)
  show ?thesis
    using m b j
      data_frame_contents [of 2 "Some 0" "[0x21, 0x22] @ replicate 62 0" 64
        "Suc (Suc (Suc 0))" ?e "Some 0"]
    by blast
qed

section \<open>Headers and data packets alternate\<close>

lemma display_loop_header:
  "monitor header_sent header_data_ok False (trace st) \<Longrightarrow>
   \<not> foldl header_sent False (trace st) \<Longrightarrow>
   monitor header_sent header_data_ok False
     (trace (snd (display_loop fuel e h packet colcommand endp st)))
   \<and> (fst (display_loop fuel e h packet colcommand endp st) \<noteq> Fault \<longrightarrow>
        \<not> foldl header_sent False
             (trace (snd (display_loop fuel e h packet colcommand endp st))))"
proof (induction fuel arbitrary: st packet colcommand)
  case 0
  then show ?case by simp
next
  case (Suc fuel)
  have step: "monitor header_sent header_data_ok False
       (trace (snd (display_loop fuel e h p c endp st')))
     \<and> (fst (display_loop fuel e h p c endp st') \<noteq> Fault \<longrightarrow>
        \<not> foldl header_sent False (trace (snd (display_loop fuel e h p c endp st'))))"
    if "monitor header_sent header_data_ok False (trace st')"
      "\<not> foldl header_sent False (trace st')" for p c st'
    using Suc.IH [OF that] .
  show ?case
  proof (cases "colcommand < endp \<and> nonstop_at e (nreads st)
                 \<and> to_short (transfer_result e (nxfers st)) = int PACKET_SIZE")
    case False
    then show ?thesis
      using Suc.prems by (auto simp: prim_defs)
  next
    case True
    show ?thesis
    proof (cases "memcpy packet (data_arr e) colcommand (2 * BYTE_STEP e)")
      case None
      then show ?thesis
        using True Suc.prems by (simp add: prim_defs)
    next
      case (Some packet')
      let ?r = "transfer_result e (Suc (nxfers st))"
      let ?st3 = "snd (libusb_control_transfer e (Data_packet colcommand) h packet'
                    (snd (send_display_command e header_packet h (snd (read_nonstop e st)))))"
      have m3: "monitor header_sent header_data_ok False (trace ?st3)"
        and a3: "\<not> foldl header_sent False (trace ?st3)"
        using True Suc.prems by (simp_all add: prim_defs)
      show ?thesis
      proof (cases "to_short ?r = int PACKET_SIZE")
        case False
        then show ?thesis
          using True Some m3 a3 by (simp add: prim_defs)
      next
        case ok: True
        have "monitor header_sent header_data_ok False (trace (usleep (1000 * 20) ?st3))"
          "\<not> foldl header_sent False (trace (usleep (1000 * 20) ?st3))"
          using m3 a3 by (simp_all add: usleep_def emit_def)
        from step [OF this]
        show ?thesis
          using True Some ok by (simp add: prim_defs)
      qed
    qed
  qed
qed

lemma header_monitor_quiet:
  "list_all (\<lambda>ev. \<not> is_transfer ev) evs \<Longrightarrow>
   monitor header_sent header_data_ok s evs \<and> foldl header_sent s evs = s"
proof (induction evs arbitrary: s)
  case Nil
  show ?case by simp
next
  case (Cons ev evs)
  then show ?case by (cases ev) auto
qed

lemma header_monitor_appends:
  assumes "appends recover_event st st'"
      and "monitor header_sent header_data_ok False (trace st)"
  shows "monitor header_sent header_data_ok False (trace st')"
    and "foldl header_sent False (trace st') = foldl header_sent False (trace st)"
proof -
  obtain evs where evs: "trace st' = trace st @ evs" "list_all recover_event evs"
    using assms(1) by (auto simp: appends_def)
  have q: "list_all (\<lambda>ev. \<not> is_transfer ev) evs"
    using evs(2) by (auto simp: list_all_iff recover_not_transfer)
  show "monitor header_sent header_data_ok False (trace st')"
    using header_monitor_quiet [OF q] evs(1) assms(2) by simp
  show "foldl header_sent False (trace st') = foldl header_sent False (trace st)"
    using header_monitor_quiet [OF q] evs(1) by simp
qed

lemma send_packets_loop_header:
  "monitor header_sent header_data_ok False (trace st) \<Longrightarrow>
   \<not> foldl header_sent False (trace st) \<Longrightarrow>
   monitor header_sent header_data_ok False (trace (snd (send_packets_loop fuel e cur st)))
   \<and> (fst (send_packets_loop fuel e cur st) \<noteq> Fault \<longrightarrow>
        \<not> foldl header_sent False (trace (snd (send_packets_loop fuel e cur st))))"
proof (induction fuel arbitrary: st cur)
  case 0
  then show ?case by simp
next
  case (Suc fuel)
  let ?M = "\<lambda>s. monitor header_sent header_data_ok False (trace s)"
  let ?A = "\<lambda>s. foldl header_sent False (trace s)"
  let ?endp = "2 * int (BYTE_STEP e) * command_cnt e"
  obtain ns st1 where r: "read_nonstop e st = (ns, st1)"
    by (cases "read_nonstop e st")
  have m1: "?M st1" "\<not> ?A st1"
    using Suc.prems r by (auto simp: prim_defs)
  obtain out st2 where d: "display_data_arr fuel e cur 0 ?endp st1 = (out, st2)"
    by (cases "display_data_arr fuel e cur 0 ?endp st1")
  have m2: "?M st2" "out \<noteq> Fault \<Longrightarrow> \<not> ?A st2"
    using display_loop_header [OF m1, of fuel e cur "replicate PACKET_SIZE 0" 0 ?endp] d
    by (simp_all add: display_data_arr_def)
  obtain ns' st3 where r': "read_nonstop e st2 = (ns', st3)"
    by (cases "read_nonstop e st2")
  have m3: "?M st3" "out \<noteq> Fault \<Longrightarrow> \<not> ?A st3"
    using m2 r' by (auto simp: prim_defs)
  let ?st4 = "usleep 1000000 (release_and_close cur st3)"
  have m4: "?M ?st4" "out \<noteq> Fault \<Longrightarrow> \<not> ?A ?st4"
    using m3 by (auto simp: prim_defs split: option.splits)
  obtain out' st5 where rl: "reconnect_loop fuel e None ?st4 = (out', st5)"
    by (cases "reconnect_loop fuel e None ?st4")
  have ap: "appends recover_event ?st4 st5"
    using reconnect_loop_appends [OF appends_refl, of ?st4 fuel e None] rl by simp
  have m5: "?M st5" "out \<noteq> Fault \<Longrightarrow> \<not> ?A st5"
    using header_monitor_appends [OF ap m4(1)] m4(2) by simp_all
  have rec: "?M (snd (send_packets_loop fuel e c s))
             \<and> (fst (send_packets_loop fuel e c s) \<noteq> Fault \<longrightarrow>
                  \<not> ?A (snd (send_packets_loop fuel e c s)))"
    if "?M s" "\<not> ?A s" for c s
    using Suc.IH [OF that] .
  show ?case
  proof (cases out)
    case Fault
    then show ?thesis using r d m1 m2 by (cases ns) simp_all
  next
    case Out_of_fuel
    then show ?thesis using r d m1 m2 by (cases ns) simp_all
  next
    case (Done display_result)
    then have nf: "out \<noteq> Fault" by simp
    show ?thesis
      using r d Done r' rl m1 m2(1) m2(2) [OF nf] m3(1) m3(2) [OF nf] m5(1) m5(2) [OF nf] rec
      by (cases ns; cases ns'; cases out') (simp_all)
  qed
qed


lemma send_packets_header:
  "monitor header_sent header_data_ok False (trace (snd (send_packets fuel e cur init_state)))"
proof -
  have m: "monitor header_sent header_data_ok False (trace init_state)"
    and a: "\<not> foldl header_sent False (trace init_state)"
    by (simp_all add: init_state_def)
  obtain out st where l: "send_packets_loop fuel e cur init_state = (out, st)"
    by (cases "send_packets_loop fuel e cur init_state")
  have "monitor header_sent header_data_ok False (trace st)"
    using send_packets_loop_header [OF m a, of fuel e cur] l by simp
  then show ?thesis
    using l
    by (auto simp: send_packets_def prim_defs split: prod.splits outcome.splits option.splits)
qed

lemma sent_header_iff:
  "sent_header ev \<longleftrightarrow>
   (\<exists>h r. ev = Control_transfer Header_packet h header_packet r \<and> to_short r = int PACKET_SIZE)"
proof (cases ev)
  case (Control_transfer k h buf r)
  then show ?thesis by (cases k) auto
qed auto

lemma header_sent_last:
  "foldl header_sent False tr \<longleftrightarrow> transfers tr \<noteq> [] \<and> sent_header (last (transfers tr))"
proof (induction tr rule: rev_induct)
  case Nil
  show ?case by (simp add: transfers_def)
next
  case (snoc ev tr)
  show ?case
  proof (cases ev)
    case (Control_transfer k h buf r)
    then show ?thesis by (cases k) (auto simp: transfers_def)
  qed (use snoc in \<open>auto simp: transfers_def\<close>)
qed

lemma header_monitor_nth:
  "monitor header_sent header_data_ok False tr \<Longrightarrow> i < length (transfers tr) \<Longrightarrow>
   header_data_ok (0 < i \<and> sent_header (transfers tr ! (i - 1))) (transfers tr ! i)"
proof (induction tr arbitrary: i rule: rev_induct)
  case Nil
  then show ?case by (simp add: transfers_def)
next
  case (snoc ev tr)
  show ?case
  proof (cases "i < length (transfers tr)")
    case True
    have "transfers (tr @ [ev]) ! i = transfers tr ! i"
      using True by (simp add: transfers_def nth_append)
    moreover have "i - 1 < length (transfers tr)"
      using True by arith
    then have "transfers (tr @ [ev]) ! (i - 1) = transfers tr ! (i - 1)"
      by (simp add: transfers_def nth_append)
    ultimately show ?thesis
      using snoc.IH [of i] snoc.prems True by simp
  next
    case False
    then have tev: "is_transfer ev" and i: "i = length (transfers tr)"
      using snoc.prems(2) by (auto simp: transfers_def split: if_splits)
    have at_i: "transfers (tr @ [ev]) ! i = ev"
      using tev i by (simp add: transfers_def nth_append)
    have before: "0 < i \<Longrightarrow> transfers (tr @ [ev]) ! (i - 1) = last (transfers tr)"
      using tev i by (simp add: transfers_def nth_append last_conv_nth)
    have "header_data_ok (foldl header_sent False tr) ev"
      using snoc.prems(1) by simp
    moreover have "foldl header_sent False tr
        \<longleftrightarrow> 0 < i \<and> sent_header (transfers (tr @ [ev]) ! (i - 1))"
      using header_sent_last [of tr] before i by auto
    ultimately show ?thesis
      using at_i by simp
  qed
qed

text \<open>
  Claim C4. Among the control transfers of a run, in the order they are issued, every
  data packet comes right after a header packet that went through (the header contents,
  64 bytes transferred), and the transfer before that header, if there is one, is not
  a header that went through: exactly one header was transferred for the data packet.
  So the first transfer is never a data packet and two data packets never follow each
  other, whatever the length of the stream.
\<close>

theorem header_before_every_data:
  assumes "xs = transfers (trace (snd (send_packets fuel e h0 init_state)))"
      and "i < length xs" and "is_data (xs ! i)"
  shows "0 < i \<and> \<not> is_data (xs ! (i - 1))
         \<and> (\<exists>h r. xs ! (i - 1) = Control_transfer Header_packet h header_packet r
               \<and> to_short r = int PACKET_SIZE)
         \<and> (2 \<le> i \<longrightarrow> \<not> sent_header (xs ! (i - 2)))"
proof -
  have m: "monitor header_sent header_data_ok False
             (trace (snd (send_packets fuel e h0 init_state)))"
    by (rule send_packets_header)
  have "header_data_ok (0 < i \<and> sent_header (xs ! (i - 1))) (xs ! i)"
    using header_monitor_nth [OF m, of i] assms(1,2) by simp
  then have pos: "0 < i" and sh: "sent_header (xs ! (i - 1))"
    using assms(3) by (cases "xs ! i" rule: is_data.cases; simp)+
  obtain h r where hd: "xs ! (i - 1) = Control_transfer Header_packet h header_packet r"
      and r: "to_short r = int PACKET_SIZE"
    using sh unfolding sent_header_iff by blast
  have "\<not> sent_header (xs ! (i - 2))" if two: "2 \<le> i"
  proof -
    have "i - 1 < length xs"
      using assms(2) by arith
    then have "header_data_ok (0 < i - 1 \<and> sent_header (xs ! (i - 1 - 1))) (xs ! (i - 1))"
      using header_monitor_nth [OF m, of "i - 1"] assms(1) by simp
    moreover have "i - 1 - 1 = i - 2" "0 < i - 1"
      using two by arith+
    ultimately show ?thesis
      using hd by simp
  qed
  then show ?thesis
    using pos hd r by simp
qed

theorem header_before_every_data_witness:
  "is_data (transfers (trace (snd (send_packets (Suc (Suc (Suc 0))) (demo_env 2 None None)
                                     (Some 0) init_state))) ! 3)
   \<and> transfers (trace (snd (send_packets (Suc (Suc (Suc 0))) (demo_env 2 None None)
                               (Some 0) init_state))) ! (3 - 1)
       = Control_transfer Header_packet (Some 0) header_packet 64
   \<and> \<not> sent_header (transfers (trace (snd (send_packets (Suc (Suc (Suc 0)))
                 (demo_env 2 None None) (Some 0) init_state))) ! (3 - 2))"
proof -
  let ?xs = "transfers (trace (snd (send_packets (Suc (Suc (Suc 0))) (demo_env 2 None None)
                                      (Some 0) init_state)))"
  have xs: "?xs = [Control_transfer Header_packet (Some 0) header_packet 64,
                   Control_transfer (Data_packet 0) (Some 0) ([0x11, 0x12] @ replicate 62 0) 64,
                   Control_transfer Header_packet (Some 0) header_packet 64,
                   Control_transfer (Data_packet 2) (Some 0) ([0x21, 0x22] @ replicate 62 0) 64]"
    by (simp add: run_defs transfers_def)
  have len: "3 < length ?xs" and dat: "is_data (?xs ! 3)"
    by (simp_all add: xs)
  show ?thesis
    using header_before_every_data [OF refl len dat] dat by (simp add: xs)
qed

section \<open>The exits of open_micro and what they print\<close>

lemma stderr_output_simps [simp]:
  "stderr_output (xs @ ys) = stderr_output xs @ stderr_output ys"
  "stderr_output (ev # evs) = stderr_text ev @ stderr_output evs"
  "stderr_output [] = []"
  by (simp_all add: stderr_output_def)

lemma dev_search_silent:
  "dev_search devs st = (r, st') \<Longrightarrow>
   stderr_output (trace st') = stderr_output (trace st)
   \<and> nopens st' = nopens st \<and> nclaims st' = nclaims st"
  by (induction devs arbitrary: st) (auto simp: prim_defs split: if_splits)

lemma claim_loop_output:
  assumes "claim_loop e h retry errs st = (res, st')"
  shows "stderr_output (trace st') = stderr_output (trace st)
         \<and> (case res of
               Inl r \<Rightarrow> r = 0
             | Inr ab \<Rightarrow>
                 if retry < 3 then
                   ab = (claim_result e (nclaims st + 2 * (2 - retry)),
                         claim_result e (nclaims st + 2 * (2 - retry) + 1))
                 else ab = errs)"
  using assms
proof (induction "3 - retry" arbitrary: retry errs st)
  case 0
  then show ?case by (auto simp: claim_loop.simps [of e h retry])
next
  case (Suc n)
  have lt: "retry < 3" and n: "n = 3 - (retry + 1)"
    using Suc.hyps(2) by arith+
  let ?sa = "if retry > 0 then usleep 100000 st else st"
  let ?e0 = "claim_result e (nclaims st)"
  let ?e1 = "claim_result e (nclaims st + 1)"
  obtain st2 where c: "libusb_claim_interface e h 1 (snd (libusb_claim_interface e h 0 ?sa))
                        = (?e1, st2)"
    and c0: "fst (libusb_claim_interface e h 0 ?sa) = ?e0"
    and s2: "stderr_output (trace st2) = stderr_output (trace st)"
    and n2: "nclaims st2 = nclaims st + 2"
    by (cases "0 < retry") (simp_all add: prim_defs)
  show ?case
  proof (cases "?e0 = 0 \<and> ?e1 = 0")
    case True
    then show ?thesis
      using Suc.prems lt c c0 s2
      by (auto simp: claim_loop.simps [of e h retry] split: prod.splits)
  next
    case False
    let ?st3 = "(if ?e1 = 0 then libusb_release_interface h 1 else id)
                  ((if ?e0 = 0 then libusb_release_interface h 0 else id) st2)"
    have s3: "stderr_output (trace ?st3) = stderr_output (trace st)"
      and n3: "nclaims ?st3 = nclaims st + 2"
      using s2 n2 by (simp_all add: prim_defs)
    have rec: "claim_loop e h (retry + 1) (?e0, ?e1) ?st3 = (res, st')"
      using Suc.prems lt c c0 False
      by (auto simp: claim_loop.simps [of e h retry] split: prod.splits)
    from Suc.hyps(1) [OF n rec]
    have ih: "stderr_output (trace st') = stderr_output (trace ?st3)"
      and ihr: "case res of
                  Inl r \<Rightarrow> r = 0
                | Inr ab \<Rightarrow>
                    if retry + 1 < 3 then
                      ab = (claim_result e (nclaims ?st3 + 2 * (2 - (retry + 1))),
                            claim_result e (nclaims ?st3 + 2 * (2 - (retry + 1)) + 1))
                    else ab = (?e0, ?e1)"
      by blast+
    show ?thesis
    proof (cases res)
      case (Inl r)
      then show ?thesis using ih ihr s3 by simp
    next
      case (Inr ab)
      have "ab = (claim_result e (nclaims st + 2 * (2 - retry)),
                  claim_result e (nclaims st + 2 * (2 - retry) + 1))"
      proof (cases "retry + 1 < 3")
        case True
        have eq: "nclaims ?st3 + 2 * (2 - (retry + 1)) = nclaims st + 2 * (2 - retry)"
          using n3 True by arith
        have "ab = (claim_result e (nclaims ?st3 + 2 * (2 - (retry + 1))),
                    claim_result e (nclaims ?st3 + 2 * (2 - (retry + 1)) + 1))"
          using ihr Inr True by simp
        then show ?thesis
          unfolding eq .
      next
        case False
        then have "2 * (2 - retry) = 0"
          using lt by arith
        moreover have "ab = (?e0, ?e1)"
          using ihr Inr False by simp
        ultimately show ?thesis
          by simp
      qed
      then show ?thesis
        using Inr ih s3 lt by simp
    qed
  qed
qed



text \<open>
  The first loop of \<open>open_micro\<close> starts with a \<open>devs\<close> that is not allocated. It prints
  nothing unless it ends in \<open>Bad_free\<close>, which it does as soon as the device list
  fails: in the first two rounds the list is freed right away, in the third after the
  message, and the list of each round before was freed when no device was found in it.
  When the loop ends with no device, \<open>devs\<close> is not allocated either.
\<close>

lemma search_loop_output:
  assumes "search_loop e retry_count devs st = (res, st')" and "\<not> allocated devs"
  shows "(case res of
            Inl x \<Rightarrow> x = Bad_free
          | Inr (m, devs') \<Rightarrow>
              stderr_output (trace st') = stderr_output (trace st)
              \<and> nopens st' = nopens st \<and> nclaims st' = nclaims st
              \<and> allocated devs' = (m \<noteq> None))"
  using assms
proof (induction "3 - retry_count" arbitrary: retry_count devs st)
  case 0
  then show ?case by (auto simp: search_loop.simps [of e retry_count])
next
  case (Suc n)
  have lt: "retry_count < 3" and n: "n = 3 - (retry_count + 1)"
    using Suc.hyps(2) by arith+
  have nf: "free_devs devs s = None" for s
    using Suc.prems(2) by (cases devs) simp_all
  let ?sa = "if retry_count > 0 then usleep 500000 st else st"
  obtain l st1 where g: "libusb_get_device_list e ?sa = (l, st1)"
    by (cases "libusb_get_device_list e ?sa")
  have s1: "stderr_output (trace st1) = stderr_output (trace st)"
    "nopens st1 = nopens st" "nclaims st1 = nclaims st"
    using g by (cases "0 < retry_count"; auto simp: prim_defs)+
  show ?case
  proof (cases l)
    case None
    then have "res = Inl Bad_free"
      using Suc.prems(1) lt g nf
      by (cases "retry_count < 2") (auto simp: search_loop.simps [of e retry_count] FREE_AND_EXIT_def)
    then show ?thesis by simp
  next
    case (Some devl)
    obtain m st2 where d: "dev_search devl st1 = (m, st2)"
      by (cases "dev_search devl st1")
    note ds = dev_search_silent [OF d]
    show ?thesis
    proof (cases m)
      case None
      let ?st3 = "libusb_free_device_list st2"
      have rec: "search_loop e (retry_count + 1) Dangling ?st3 = (res, st')"
        using Suc.prems(1) lt g Some d None by (simp add: search_loop.simps [of e retry_count])
      have "\<not> allocated Dangling" by simp
      from Suc.hyps(1) [OF n rec this] show ?thesis
        using s1 ds by (auto simp: prim_defs split: sum.splits prod.splits)
    next
      case found: (Some micro_dev)
      then show ?thesis
        using Suc.prems(1) lt g Some d s1 ds
        by (auto simp: search_loop.simps [of e retry_count])
    qed
  qed
qed




text \<open>
  The two ways out of \<open>open_micro\<close> for a device list that fails and for no supported
  device are not reached: both free \<open>devs\<close> when it is not allocated.
\<close>

lemma open_micro_exit_sites:
  assumes "open_micro e st = (Exited site code, st')"
  shows "site = At_init \<or> site = At_open \<or> site = At_claim"
proof (cases "to_short (init_result e) \<noteq> 0")
  case True
  then show ?thesis
    using assms by (auto simp: open_micro_def)
next
  case False
  let ?st0 = "emit (Libusb_init (init_result e)) st"
  obtain res st1 where sl: "search_loop e 0 Unassigned ?st0 = (res, st1)"
    by (cases "search_loop e 0 Unassigned ?st0")
  have so: "case res of Inl x \<Rightarrow> x = Bad_free
            | Inr (m, devs') \<Rightarrow>
                stderr_output (trace st1) = stderr_output (trace ?st0)
                \<and> nopens st1 = nopens ?st0 \<and> nclaims st1 = nclaims ?st0
                \<and> allocated devs' = (m \<noteq> None)"
    by (rule search_loop_output [OF sl]) simp
  show ?thesis
  proof (cases res)
    case (Inl x)
    then show ?thesis
      using assms False sl so by (auto simp: open_micro_def)
  next
    case (Inr md)
    obtain m devs where md: "md = (m, devs)"
      by (cases md)
    show ?thesis
    proof (cases m)
      case None
      then have "\<not> allocated devs"
        using so Inr md by simp
      then have "free_devs devs s = None" for s
        by (cases devs) simp_all
      then show ?thesis
        using assms False sl Inr md None by (auto simp: open_micro_def FREE_AND_EXIT_def)
    next
      case (Some micro_dev)
      then show ?thesis
        using assms False sl Inr md
        by (auto simp: open_micro_def FREE_AND_EXIT_def
            split: prod.splits if_splits option.splits)
    qed
  qed
qed

lemma open_micro_no_device_bad_free:
  "fst (open_micro (empty_bus_env None None) init_state) = Bad_free
   \<and> stderr_output (trace (snd (open_micro (empty_bus_env None None) init_state)))
       = [NODEV_ERR_MSG]"
  by (simp add: run_defs open_micro_def search_loop.simps open_loop.simps FREE_AND_EXIT_def)

lemma open_micro_no_list_bad_free:
  "fst (open_micro ((demo_env 1 None None)\<lparr>device_list_result := (\<lambda>n. None)\<rparr>) init_state)
     = Bad_free
   \<and> stderr_output (trace (snd (open_micro
         ((demo_env 1 None None)\<lparr>device_list_result := (\<lambda>n. None)\<rparr>) init_state))) = []"
  by (simp add: run_defs open_micro_def search_loop.simps open_loop.simps FREE_AND_EXIT_def)





section \<open>Where the stream resumes after a failed transfer\<close>











section \<open>The passes of send_packets over the stream\<close>


lemma ndata_simps [simp]:
  "ndata (xs @ ys) = ndata xs + ndata ys"
  "ndata (ev # evs) = (if is_data ev then 1 else 0) + ndata evs"
  "ndata [] = 0"
  by (simp_all add: ndata_def)







section \<open>After the stop is seen\<close>

lemma nonstop_at_mono: "\<not> nonstop_at e n \<Longrightarrow> \<not> nonstop_at e (Suc n)"
  by (auto simp: nonstop_at_def split: option.splits)

lemma dev_search_nreads: "nreads (snd (dev_search devs st)) = nreads st"
  by (induction devs arbitrary: st) (auto simp: prim_defs)

lemma claim_loop_nreads: "nreads (snd (claim_loop e h retry errs st)) = nreads st"
proof (induction e h retry errs st rule: claim_loop.induct)
  case (1 e h retry errs st)
  show ?case
    apply (subst claim_loop.simps)
    using 1
    apply (auto simp: prim_defs split: prod.splits)
    done
qed

lemma claim_dev_interface_nreads: "nreads (snd (claim_dev_interface e h st)) = nreads st"
  using claim_loop_nreads [of e h 0 "(0, 0)" "emit (Set_auto_detach h) st"]
  by (auto simp: claim_dev_interface_def prim_defs split: prod.splits sum.splits)

lemma reopen_loop_nreads: "nreads (snd (reopen_loop e dev retry st)) = nreads st"
proof (induction "3 - retry" arbitrary: retry st)
  case 0
  then show ?case by (subst reopen_loop.simps) simp
next
  case (Suc n)
  obtain errcode h st1 where o: "libusb_open e dev st = (errcode, h, st1)"
    by (cases "libusb_open e dev st")
  obtain errcode' st2 where c: "claim_dev_interface e h st1 = (errcode', st2)"
    by (cases "claim_dev_interface e h st1")
  have n1: "nreads st1 = nreads st"
    using o by (auto simp: prim_defs)
  have n2: "nreads st2 = nreads st"
    using claim_dev_interface_nreads [of e h st1] c n1 by simp
  have n: "n = 3 - (retry + 1)" "retry < 3"
    using Suc.hyps(2) by arith+
  have r1: "nreads (snd (reopen_loop e dev (retry + 1) (usleep 200000 st1))) = nreads st"
    using Suc.hyps(1) [OF n(1), of "usleep 200000 st1"] n1 by (simp add: prim_defs)
  have r2: "nreads (snd (reopen_loop e dev (retry + 1) (usleep 200000 (libusb_close h st2))))
              = nreads st"
    using Suc.hyps(1) [OF n(1), of "usleep 200000 (libusb_close h st2)"] n2
    by (simp add: prim_defs)
  show ?case
    using n(2) o c n2 r1 r2 by (subst reopen_loop.simps) simp
qed

lemma attempt_reconnect_nreads: "nreads (snd (attempt_reconnect e st)) = nreads st"
proof -
  have d: "nreads st' = nreads st0" if "dev_search devs st0 = (r, st')" for devs st0 r st'
    using dev_search_nreads [of devs st0] that by simp
  have o: "nreads st' = nreads st0" if "reopen_loop e dev 0 st0 = (r, st')" for dev st0 r st'
    using reopen_loop_nreads [of e dev 0 st0] that by simp
  show ?thesis
    by (auto simp: attempt_reconnect_def prim_defs split: prod.splits option.splits
        dest!: d o)
qed

lemma stop_monitor_quiet:
  "list_all connect_event evs \<Longrightarrow>
   monitor stop_seen after_stop_ok False evs \<and> \<not> foldl stop_seen False evs"
proof (induction evs rule: rev_induct)
  case Nil
  show ?case by simp
next
  case (snoc ev evs)
  then show ?case by (cases ev) auto
qed

lemma attempt_reconnect_stop:
  assumes "stop_inv e st" and "\<not> foldl stop_seen False (trace st)"
  shows "stop_inv e (snd (attempt_reconnect e st))"
    and "\<not> foldl stop_seen False (trace (snd (attempt_reconnect e st)))"
proof -
  obtain evs where evs: "trace (snd (attempt_reconnect e st)) = trace st @ evs"
    "list_all connect_event evs"
    using attempt_reconnect_appends [of st e] by (auto simp: appends_def)
  note q = stop_monitor_quiet [OF evs(2)]
  have b: "foldl stop_seen False (trace st) = False"
    using assms(2) by simp
  show "\<not> foldl stop_seen False (trace (snd (attempt_reconnect e st)))"
    using q by (simp add: evs(1) b)
  then show "stop_inv e (snd (attempt_reconnect e st))"
    using assms(1) q by (simp add: stop_inv_def evs(1) b)
qed

lemma display_loop_stop:
  "stop_inv e st \<Longrightarrow> stop_inv e (snd (display_loop fuel e h packet colcommand endp st))"
proof (induction fuel arbitrary: st packet colcommand)
  case 0
  then show ?case by simp
next
  case (Suc fuel)
  show ?case
    using Suc.prems
    by (auto simp: prim_defs stop_inv_def nonstop_at_mono intro!: Suc.IH [unfolded stop_inv_def]
        split: option.splits)
qed


lemma read_nonstop_stop:
  assumes "stop_inv e st" and "read_nonstop e st = (ns, st1)"
  shows "stop_inv e st1" and "ns \<Longrightarrow> \<not> foldl stop_seen False (trace st1)"
    and "\<not> ns \<Longrightarrow> foldl stop_seen False (trace st1)"
  using assms by (auto simp: stop_inv_def prim_defs nonstop_at_mono)

lemma reconnect_loop_stop:
  "stop_inv e st \<Longrightarrow> stop_inv e (snd (reconnect_loop fuel e cur st))"
proof (induction fuel arbitrary: st cur)
  case 0
  then show ?case by simp
next
  case (Suc fuel)
  obtain ns st1 where r: "read_nonstop e st = (ns, st1)"
    by (cases "read_nonstop e st")
  note rs = read_nonstop_stop [OF Suc.prems r]
  show ?case
  proof (cases "ns \<and> cur = None")
    case False
    then show ?thesis using r rs(1) by auto
  next
    case True
    obtain res st2 where a: "attempt_reconnect e st1 = (res, st2)"
      by (cases "attempt_reconnect e st1")
    have s2: "stop_inv e st2" and b2: "\<not> foldl stop_seen False (trace st2)"
      using attempt_reconnect_stop [OF rs(1) rs(2)] True a by simp_all
    have s3: "stop_inv e (usleep 2000000 st2)"
      using s2 b2 by (simp add: stop_inv_def prim_defs)
    show ?thesis
      using r True a Suc.IH [OF s2] Suc.IH [OF s3]
      by (auto split: option.splits)
  qed
qed

lemma send_packets_loop_stop:
  "stop_inv e st \<Longrightarrow> stop_inv e (snd (send_packets_loop fuel e cur st))"
proof (induction fuel arbitrary: st cur)
  case 0
  then show ?case by simp
next
  case (Suc fuel)
  let ?endp = "2 * int (BYTE_STEP e) * command_cnt e"
  obtain ns st1 where r: "read_nonstop e st = (ns, st1)"
    by (cases "read_nonstop e st")
  note rs = read_nonstop_stop [OF Suc.prems r]
  obtain out st2 where d: "display_data_arr fuel e cur 0 ?endp st1 = (out, st2)"
    by (cases "display_data_arr fuel e cur 0 ?endp st1")
  have m2: "stop_inv e st2"
    using display_loop_stop [OF rs(1), of fuel cur "replicate PACKET_SIZE 0" 0 ?endp] d
    by (simp add: display_data_arr_def)
  obtain ns' st3 where r': "read_nonstop e st2 = (ns', st3)"
    by (cases "read_nonstop e st2")
  note rs' = read_nonstop_stop [OF m2 r']
  let ?st4 = "usleep 1000000 (release_and_close cur st3)"
  have m4: "ns' \<Longrightarrow> stop_inv e ?st4"
    using rs'(1,2) by (auto simp: stop_inv_def prim_defs split: option.splits)
  obtain out' st5 where rl: "reconnect_loop fuel e None ?st4 = (out', st5)"
    by (cases "reconnect_loop fuel e None ?st4")
  have m5: "ns' \<Longrightarrow> stop_inv e st5"
    using reconnect_loop_stop [OF m4, of fuel None] rl by simp
  show ?case
    using r d r' rl rs(1) m2 rs'(1) m5 Suc.IH
    by (auto split: outcome.splits)
qed

lemma send_packets_stop_monitor:
  "monitor stop_seen after_stop_ok False (trace (snd (send_packets fuel e h init_state)))"
proof -
  have "stop_inv e init_state"
    by (simp add: stop_inv_def init_state_def)
  from send_packets_loop_stop [OF this, of fuel h]
  show ?thesis
    by (auto simp: send_packets_def stop_inv_def prim_defs
        split: prod.splits outcome.splits option.splits)
qed

lemma stop_seen_member: "Read_nonstop False \<in> set tr \<Longrightarrow> foldl stop_seen False tr"
proof (induction tr rule: rev_induct)
  case Nil
  then show ?case by simp
next
  case (snoc ev tr)
  then show ?case by (cases ev) auto
qed

lemma after_stop_shutdown: "after_stop_ok True ev \<Longrightarrow> shutdown_event ev"
  by (cases ev) auto

lemma stop_monitor_nth:
  "monitor stop_seen after_stop_ok False tr \<Longrightarrow> i < j \<Longrightarrow> j < length tr \<Longrightarrow>
   tr ! i = Read_nonstop False \<Longrightarrow> shutdown_event (tr ! j)"
proof (induction tr rule: rev_induct)
  case Nil
  then show ?case by simp
next
  case (snoc ev tr)
  show ?case
  proof (cases "j < length tr")
    case True
    then show ?thesis
      using snoc by (simp add: nth_append)
  next
    case False
    then have j: "j = length tr"
      using snoc.prems(3) by simp
    have "tr ! i = Read_nonstop False"
      using snoc.prems(2,4) j by (simp add: nth_append)
    then have "Read_nonstop False \<in> set tr"
      using snoc.prems(2) j by (metis nth_mem)
    then have "foldl stop_seen False tr"
      by (rule stop_seen_member)
    then have "after_stop_ok True ev"
      using snoc.prems(1) by simp
    then show ?thesis
      using j by (simp add: after_stop_shutdown)
  qed
qed


lemma display_loop_nreads_le:
  "nreads st \<le> nreads (snd (display_loop fuel e h packet colcommand endp st))"
proof (induction fuel arbitrary: st packet colcommand)
  case 0
  show ?case by simp
next
  case (Suc fuel)
  show ?case
    by (auto simp: prim_defs split: option.splits intro!: order_trans [OF _ Suc.IH])
qed

lemma reconnect_loop_nreads_le:
  "nreads st \<le> nreads (snd (reconnect_loop fuel e cur st))"
proof (induction fuel arbitrary: st cur)
  case 0
  show ?case by simp
next
  case (Suc fuel)
  obtain ns st1 where r: "read_nonstop e st = (ns, st1)" and n1: "nreads st1 = Suc (nreads st)"
    by (simp add: read_nonstop_def emit_def)
  obtain res st2 where a: "attempt_reconnect e st1 = (res, st2)"
    by (cases "attempt_reconnect e st1")
  have n2: "nreads st2 = Suc (nreads st)"
    using attempt_reconnect_nreads [of e st1] a n1 by simp
  have "nreads st2 \<le> nreads (snd (reconnect_loop fuel e c st2))" for c
    by (rule Suc.IH)
  moreover have "nreads (usleep 2000000 st2) \<le> nreads (snd (reconnect_loop fuel e c (usleep 2000000 st2)))" for c
    by (rule Suc.IH)
  ultimately show ?case
    using r a n1 n2 by (auto simp: usleep_def emit_def split: option.splits intro: le_SucI Suc_leD)
qed

lemma display_loop_fuel_eq:
  "display_loop fuel e h packet colcommand endp st = (out, st') \<Longrightarrow>
   signal_at e = Some t \<Longrightarrow> nreads st \<le> t \<Longrightarrow> t < nreads st + fuel \<Longrightarrow>
   out \<noteq> Out_of_fuel"
proof (induction fuel arbitrary: st packet colcommand out st')
  case 0
  then show ?case by simp
next
  case (Suc fuel)
  show ?case
    using Suc.prems
    by (auto simp: prim_defs nonstop_at_def split: option.splits if_splits dest: Suc.IH)
qed

lemma display_loop_fuel:
  "signal_at e = Some t \<Longrightarrow> nreads st \<le> t \<Longrightarrow> t < nreads st + fuel \<Longrightarrow>
   fst (display_loop fuel e h packet colcommand endp st) \<noteq> Out_of_fuel"
  using display_loop_fuel_eq [of fuel e h packet colcommand endp st]
  by (cases "display_loop fuel e h packet colcommand endp st") auto

lemma reconnect_loop_fuel:
  "signal_at e = Some t \<Longrightarrow> nreads st \<le> t \<Longrightarrow> t < nreads st + fuel \<Longrightarrow>
   fst (reconnect_loop fuel e cur st) \<noteq> Out_of_fuel"
proof (induction fuel arbitrary: st cur)
  case 0
  then show ?case by simp
next
  case (Suc fuel)
  obtain ns st1 where r: "read_nonstop e st = (ns, st1)" and n1: "nreads st1 = Suc (nreads st)"
    and ns: "ns = (nreads st < t)"
    using Suc.prems(1) by (simp add: read_nonstop_def emit_def nonstop_at_def)
  obtain res st2 where a: "attempt_reconnect e st1 = (res, st2)"
    by (cases "attempt_reconnect e st1")
  have n2: "nreads st2 = Suc (nreads st)"
    using attempt_reconnect_nreads [of e st1] a n1 by simp
  show ?case
  proof (cases ns)
    case False
    then show ?thesis using r by simp
  next
    case True
    have c: "nreads st2 \<le> t" "t < nreads st2 + fuel"
      using n2 True ns Suc.prems(3) by simp_all
    have "fst (reconnect_loop fuel e c st2) \<noteq> Out_of_fuel" for c
      by (rule Suc.IH [OF Suc.prems(1) c])
    moreover have "fst (reconnect_loop fuel e c (usleep 2000000 st2)) \<noteq> Out_of_fuel" for c
      by (rule Suc.IH [OF Suc.prems(1)]) (use c in \<open>simp_all add: usleep_def emit_def\<close>)
    ultimately show ?thesis
      using r a by (auto split: option.splits)
  qed
qed

lemma send_packets_loop_fuel:
  "signal_at e = Some t \<Longrightarrow> 1 \<le> fuel \<Longrightarrow> t + 2 \<le> nreads st + fuel \<Longrightarrow>
   fst (send_packets_loop fuel e cur st) \<noteq> Out_of_fuel"
proof (induction fuel arbitrary: st cur)
  case 0
  then show ?case by simp
next
  case (Suc fuel)
  let ?endp = "2 * int (BYTE_STEP e) * command_cnt e"
  obtain ns st1 where r: "read_nonstop e st = (ns, st1)" and n1: "nreads st1 = Suc (nreads st)"
    and ns: "ns = (nreads st < t)"
    using Suc.prems(1) by (simp add: read_nonstop_def emit_def nonstop_at_def)
  show ?case
  proof (cases ns)
    case False
    then show ?thesis using r by simp
  next
    case True
    then have lt: "nreads st < t"
      using ns by simp
    have f2: "2 \<le> fuel"
      using lt Suc.prems(3) by simp
    obtain out st2 where d: "display_data_arr fuel e cur 0 ?endp st1 = (out, st2)"
      by (cases "display_data_arr fuel e cur 0 ?endp st1")
    have "fst (display_loop fuel e cur (replicate PACKET_SIZE 0) 0 ?endp st1) \<noteq> Out_of_fuel"
      by (rule display_loop_fuel [OF Suc.prems(1)]) (use n1 lt Suc.prems(3) in simp_all)
    then have o: "out \<noteq> Out_of_fuel"
      using d by (simp add: display_data_arr_def)
    have n2: "Suc (nreads st) \<le> nreads st2"
      using display_loop_nreads_le [of st1 fuel e cur "replicate PACKET_SIZE 0" 0 ?endp] d n1
      by (simp add: display_data_arr_def)
    have rec2: "fst (send_packets_loop fuel e c st2) \<noteq> Out_of_fuel" for c
      by (rule Suc.IH [OF Suc.prems(1)]) (use f2 n2 Suc.prems(3) in simp_all)
    obtain ns' st3 where r': "read_nonstop e st2 = (ns', st3)"
      and n3: "nreads st3 = Suc (nreads st2)" and ns': "ns' = (nreads st2 < t)"
      using Suc.prems(1) by (simp add: read_nonstop_def emit_def nonstop_at_def)
    have rec3: "fst (send_packets_loop fuel e c st3) \<noteq> Out_of_fuel" for c
      by (rule Suc.IH [OF Suc.prems(1)]) (use f2 n2 n3 Suc.prems(3) in simp_all)
    let ?st4 = "usleep 1000000 (release_and_close cur st3)"
    have n4: "nreads ?st4 = Suc (nreads st2)"
      using n3 by (simp add: prim_defs split: option.splits)
    obtain out' st5 where rl: "reconnect_loop fuel e None ?st4 = (out', st5)"
      by (cases "reconnect_loop fuel e None ?st4")
    have o': "out' \<noteq> Out_of_fuel" if "ns'"
    proof -
      have "fst (reconnect_loop fuel e None ?st4) \<noteq> Out_of_fuel"
        by (rule reconnect_loop_fuel [OF Suc.prems(1)])
          (use that ns' n4 n2 Suc.prems(3) in simp_all)
      then show ?thesis using rl by simp
    qed
    have n5: "Suc (nreads st) \<le> nreads st5"
      using reconnect_loop_nreads_le [of ?st4 fuel e None] rl n4 n2 by simp
    have rec5: "fst (send_packets_loop fuel e c st5) \<noteq> Out_of_fuel" for c
      by (rule Suc.IH [OF Suc.prems(1)]) (use f2 n5 Suc.prems(3) in simp_all)
    show ?thesis
      using r True d o r' rl o' rec2 rec3 rec5
      by (auto split: outcome.splits)
  qed
qed


lemma dev_search_connection:
  "foldl connection_step s0 (trace (snd (dev_search devs st))) = foldl connection_step s0 (trace st)"
proof (induction devs arbitrary: st)
  case Nil
  show ?case by simp
next
  case (Cons dev devs)
  have "foldl connection_step s0 (trace (usleep 10000 st)) = foldl connection_step s0 (trace st)"
    by (cases "foldl connection_step s0 (trace st)") (simp add: prim_defs)
  then show ?case
    using Cons [of "usleep 10000 st"] by simp
qed

lemma display_loop_connection:
  "foldl connection_step s0 (trace (snd (display_loop fuel e h packet colcommand endp st)))
     = foldl connection_step s0 (trace st)"
proof (induction fuel arbitrary: st packet colcommand)
  case 0
  show ?case by simp
next
  case (Suc fuel)
  obtain H C where s: "foldl connection_step s0 (trace st) = (H, C)"
    by (cases "foldl connection_step s0 (trace st)")
  show ?case
    by (auto simp: prim_defs s Suc.IH split: option.splits)
qed

lemma claim_loop_connection:
  assumes "foldl connection_step s0 (trace st) = (H, C)" and "(h, 0) \<notin> C" and "(h, 1) \<notin> C"
  shows "foldl connection_step s0 (trace (snd (claim_loop e h retry errs st)))
           = (case fst (claim_loop e h retry errs st) of
                Inl r \<Rightarrow> (H, insert (h, 0) (insert (h, 1) C))
              | Inr ab \<Rightarrow> (H, C))"
  using assms(1)
proof (induction "3 - retry" arbitrary: retry errs st)
  case 0
  then show ?case by (simp add: claim_loop.simps [of e h retry])
next
  case (Suc n)
  have lt: "retry < 3" and n: "n = 3 - (retry + 1)"
    using Suc.hyps(2) by arith+
  let ?sa = "if retry > 0 then usleep 100000 st else st"
  let ?e0 = "claim_result e (nclaims st)"
  let ?e1 = "claim_result e (nclaims st + 1)"
  obtain st2 where c: "libusb_claim_interface e h 1 (snd (libusb_claim_interface e h 0 ?sa))
                        = (?e1, st2)"
    and c0: "fst (libusb_claim_interface e h 0 ?sa) = ?e0"
    and s2: "foldl connection_step s0 (trace st2)
               = (H, (if ?e1 = 0 then insert (h, 1) else id) ((if ?e0 = 0 then insert (h, 0) else id) C))"
    using Suc.prems by (cases "0 < retry") (simp_all add: prim_defs)
  show ?case
  proof (cases "?e0 = 0 \<and> ?e1 = 0")
    case True
    then show ?thesis
      using lt c c0 s2
      by (auto simp: claim_loop.simps [of e h retry] insert_commute split: prod.splits)
  next
    case False
    let ?st3 = "(if ?e1 = 0 then libusb_release_interface h 1 else id)
                  ((if ?e0 = 0 then libusb_release_interface h 0 else id) st2)"
    have s3: "foldl connection_step s0 (trace ?st3) = (H, C)"
      using s2 False assms(2,3) by (auto simp: prim_defs)
    have rec: "claim_loop e h retry errs st = claim_loop e h (retry + 1) (?e0, ?e1) ?st3"
      using lt c c0 False
      by (auto simp: claim_loop.simps [of e h retry] split: prod.splits)
    show ?thesis
      unfolding rec by (rule Suc.hyps(1) [OF n s3])
  qed
qed

lemma claim_dev_interface_connection:
  assumes "foldl connection_step s0 (trace st) = (H, C)" and "(h, 0) \<notin> C" and "(h, 1) \<notin> C"
  shows "foldl connection_step s0 (trace (snd (claim_dev_interface e h st)))
           = (if fst (claim_dev_interface e h st) = 0 then (H, insert (h, 0) (insert (h, 1) C))
              else (H, C))"
proof -
  let ?st0 = "emit (Set_auto_detach h) st"
  have s0: "foldl connection_step s0 (trace ?st0) = (H, C)"
    using assms(1) by (simp add: emit_def)
  obtain res st1 where cl: "claim_loop e h 0 (0, 0) ?st0 = (res, st1)"
    by (cases "claim_loop e h 0 (0, 0) ?st0")
  have r0: "res = Inl r \<Longrightarrow> r = 0" for r
    using claim_loop_output [OF cl] by simp
  show ?thesis
    using claim_loop_connection [OF s0 assms(2,3), of e 0 "(0, 0)"] cl r0
    by (auto simp: claim_dev_interface_def prim_defs split: sum.splits)
qed


lemma reopen_loop_connection:
  assumes "foldl connection_step s0 (trace st) = ({}, {})"
  shows "foldl connection_step s0 (trace (snd (reopen_loop e dev retry st)))
           = connection_of (fst (reopen_loop e dev retry st))"
  using assms
proof (induction "3 - retry" arbitrary: retry st)
  case 0
  then show ?case by (simp add: reopen_loop.simps [of e dev retry])
next
  case (Suc n)
  have lt: "retry < 3" and n: "n = 3 - (retry + 1)"
    using Suc.hyps(2) by arith+
  let ?r = "open_result e (nopens st)"
  obtain h st1 where o: "libusb_open e dev st = (?r, h, st1)"
    and s1: "foldl connection_step s0 (trace st1) = (if ?r = 0 then ({h}, {}) else ({}, {}))"
    using Suc.prems by (simp add: prim_defs)
  show ?case
  proof (cases "?r = 0")
    case False
    have s: "foldl connection_step s0 (trace (usleep 200000 st1)) = ({}, {})"
      using s1 False by (simp add: prim_defs)
    have rec: "reopen_loop e dev retry st = reopen_loop e dev (retry + 1) (usleep 200000 st1)"
      using lt o False by (simp add: reopen_loop.simps [of e dev retry])
    show ?thesis
      unfolding rec by (rule Suc.hyps(1) [OF n s])
  next
    case True
    then have s1': "foldl connection_step s0 (trace st1) = ({h}, {})"
      using s1 by simp
    obtain errcode' st2 where c: "claim_dev_interface e h st1 = (errcode', st2)"
      by (cases "claim_dev_interface e h st1")
    have s2: "foldl connection_step s0 (trace st2)
                = (if errcode' = 0 then ({h}, {(h, 0), (h, 1)}) else ({h}, {}))"
      using claim_dev_interface_connection [OF s1', of h e] c by simp
    show ?thesis
    proof (cases "errcode' = 0")
      case True
      then show ?thesis
        using lt o \<open>?r = 0\<close> c s2 by (simp add: reopen_loop.simps [of e dev retry])
    next
      case False
      have s: "foldl connection_step s0 (trace (usleep 200000 (libusb_close h st2))) = ({}, {})"
        using s2 False by (simp add: prim_defs)
      have rec: "reopen_loop e dev retry st
                   = reopen_loop e dev (retry + 1) (usleep 200000 (libusb_close h st2))"
        using lt o \<open>?r = 0\<close> c False by (simp add: reopen_loop.simps [of e dev retry])
      show ?thesis
        unfolding rec by (rule Suc.hyps(1) [OF n s])
    qed
  qed
qed

lemma attempt_reconnect_connection:
  assumes "foldl connection_step s0 (trace st) = ({}, {})"
  shows "foldl connection_step s0 (trace (snd (attempt_reconnect e st)))
           = connection_of (fst (attempt_reconnect e st))"
proof -
  obtain l st1 where g: "libusb_get_device_list e st = (l, st1)"
    and s1: "foldl connection_step s0 (trace st1) = ({}, {})"
    using assms by (simp add: prim_defs)
  show ?thesis
  proof (cases l)
    case None
    then show ?thesis using g s1 by (simp add: attempt_reconnect_def)
  next
    case (Some devs)
    obtain m st2 where d: "dev_search devs st1 = (m, st2)"
      by (cases "dev_search devs st1")
    have s2: "foldl connection_step s0 (trace st2) = ({}, {})"
      using dev_search_connection [of s0 devs st1] d s1 by simp
    show ?thesis
    proof (cases m)
      case None
      then show ?thesis
        using g Some d s2 by (simp add: attempt_reconnect_def prim_defs)
    next
      case (Some micro_dev)
      obtain r st3 where ro: "reopen_loop e micro_dev 0 st2 = (r, st3)"
        by (cases "reopen_loop e micro_dev 0 st2")
      have "foldl connection_step s0 (trace st3) = connection_of r"
        using reopen_loop_connection [OF s2, of e micro_dev 0] ro by simp
      then show ?thesis
        using g \<open>l = Some devs\<close> d Some ro
        by (cases r) (simp_all add: attempt_reconnect_def prim_defs)
    qed
  qed
qed

lemma reconnect_loop_connection:
  "reconnect_loop fuel e cur st = (Done r, st') \<Longrightarrow>
   foldl connection_step s0 (trace st) = connection_of cur \<Longrightarrow>
   foldl connection_step s0 (trace st') = connection_of r"
proof (induction fuel arbitrary: st cur)
  case 0
  then show ?case by simp
next
  case (Suc fuel)
  obtain ns st1 where r: "read_nonstop e st = (ns, st1)"
    and s1: "foldl connection_step s0 (trace st1) = connection_of cur"
    using Suc.prems(2) by (cases cur) (simp_all add: prim_defs)
  show ?case
  proof (cases "ns \<and> cur = None")
    case False
    then show ?thesis using Suc.prems(1) r s1 by auto
  next
    case True
    obtain res st2 where a: "attempt_reconnect e st1 = (res, st2)"
      by (cases "attempt_reconnect e st1")
    have s2: "foldl connection_step s0 (trace st2) = connection_of res"
      using attempt_reconnect_connection [of s0 st1 e] a s1 True by simp
    show ?thesis
    proof (cases res)
      case None
      have "foldl connection_step s0 (trace (usleep 2000000 st2)) = connection_of cur"
        using s2 None True by (simp add: prim_defs)
      moreover have "reconnect_loop fuel e cur (usleep 2000000 st2) = (Done r, st')"
        using Suc.prems(1) r True a None by simp
      ultimately show ?thesis
        by (rule Suc.IH [rotated])
    next
      case (Some new_handle)
      have "reconnect_loop fuel e (Some new_handle) st2 = (Done r, st')"
        using Suc.prems(1) r True a Some by simp
      moreover have "foldl connection_step s0 (trace st2) = connection_of (Some new_handle)"
        using s2 Some by simp
      ultimately show ?thesis
        by (rule Suc.IH)
    qed
  qed
qed

lemma release_and_close_connection:
  "foldl connection_step s0 (trace st) = connection_of cur \<Longrightarrow>
   foldl connection_step s0 (trace (release_and_close cur st)) = ({}, {})"
  by (cases cur) (auto simp: prim_defs)

lemma send_packets_loop_connection:
  "send_packets_loop fuel e cur st = (Done r, st') \<Longrightarrow>
   foldl connection_step s0 (trace st) = connection_of cur \<Longrightarrow>
   foldl connection_step s0 (trace st') = connection_of r"
proof (induction fuel arbitrary: st cur)
  case 0
  then show ?case by simp
next
  case (Suc fuel)
  let ?endp = "2 * int (BYTE_STEP e) * command_cnt e"
  obtain ns st1 where r: "read_nonstop e st = (ns, st1)"
    and s1: "foldl connection_step s0 (trace st1) = connection_of cur"
    using Suc.prems(2) by (cases cur) (simp_all add: prim_defs)
  obtain out st2 where d: "display_data_arr fuel e cur 0 ?endp st1 = (out, st2)"
    by (cases "display_data_arr fuel e cur 0 ?endp st1")
  have s2: "foldl connection_step s0 (trace st2) = connection_of cur"
    using display_loop_connection [of s0 fuel e cur "replicate PACKET_SIZE 0" 0 ?endp st1] d s1
    by (simp add: display_data_arr_def)
  obtain ns' st3 where r': "read_nonstop e st2 = (ns', st3)"
    and s3: "foldl connection_step s0 (trace st3) = connection_of cur"
    using s2 by (cases cur) (simp_all add: prim_defs)
  let ?st4 = "usleep 1000000 (release_and_close cur st3)"
  have s4: "foldl connection_step s0 (trace ?st4) = connection_of None"
    using release_and_close_connection [OF s3] by (simp add: usleep_def emit_def)
  obtain out' st5 where rl: "reconnect_loop fuel e None ?st4 = (out', st5)"
    by (cases "reconnect_loop fuel e None ?st4")
  have s5: "foldl connection_step s0 (trace st5) = connection_of new_handle"
    if "out' = Done new_handle" for new_handle
    using reconnect_loop_connection [OF _ s4, of fuel e new_handle st5] rl that by simp
  show ?case
    using Suc.prems(1) r d r' rl s1 s2 s3 s5
    by (auto split: outcome.splits if_splits dest: Suc.IH)
qed


lemma send_packets_loop_exit_read:
  "send_packets_loop fuel e cur st = (Done r, st') \<Longrightarrow> Read_nonstop False \<in> set (trace st')"
proof (induction fuel arbitrary: st cur)
  case 0
  then show ?case by simp
next
  case (Suc fuel)
  show ?case
    using Suc.prems
    by (auto simp: read_nonstop_def emit_def split: prod.splits outcome.splits if_splits
        dest: Suc.IH)
qed

lemma shutdown_no_wait: "shutdown_event ev \<Longrightarrow> worst_usec ev = 0"
  by (cases ev) auto

subsection \<open>Between two reads of the flag\<close>

lemma display_loop_phase:
  "monitor phase_step phase_ok Fresh (trace st) \<Longrightarrow>
   monitor phase_step phase_ok Fresh
     (trace (snd (display_loop fuel e h packet colcommand endp st)))"
proof (induction fuel arbitrary: st packet colcommand)
  case 0
  then show ?case by simp
next
  case (Suc fuel)
  show ?case
    using Suc.prems
    by (auto simp: prim_defs intro!: Suc.IH split: option.splits)
qed

lemma phase_monitor_quiet:
  "list_all recover_event evs \<Longrightarrow> p = Fresh \<or> p = Recovering \<Longrightarrow>
   monitor phase_step phase_ok p evs
   \<and> (foldl phase_step p evs = Fresh \<or> foldl phase_step p evs = Recovering)"
proof (induction evs arbitrary: p)
  case Nil
  then show ?case by simp
next
  case (Cons ev evs)
  have "phase_ok p ev" and "phase_step p ev = Fresh \<or> phase_step p ev = Recovering"
    using Cons.prems by (cases ev; auto)+
  then show ?case
    using Cons.IH [of "phase_step p ev"] Cons.prems(1) by simp
qed

lemma phase_monitor_appends:
  assumes "appends recover_event st st'"
      and "monitor phase_step phase_ok Fresh (trace st)"
      and "foldl phase_step Fresh (trace st) = Fresh \<or> foldl phase_step Fresh (trace st) = Recovering"
  shows "monitor phase_step phase_ok Fresh (trace st')"
proof -
  obtain evs where evs: "trace st' = trace st @ evs" "list_all recover_event evs"
    using assms(1) by (auto simp: appends_def)
  show ?thesis
    using phase_monitor_quiet [OF evs(2) assms(3)] evs(1) assms(2) by simp
qed

lemma read_nonstop_phase:
  "monitor phase_step phase_ok Fresh (trace st) \<Longrightarrow>
   monitor phase_step phase_ok Fresh (trace (snd (read_nonstop e st)))
   \<and> foldl phase_step Fresh (trace (snd (read_nonstop e st))) = Fresh"
  by (simp add: read_nonstop_def emit_def)

lemma send_packets_loop_phase:
  "monitor phase_step phase_ok Fresh (trace st) \<Longrightarrow>
   monitor phase_step phase_ok Fresh (trace (snd (send_packets_loop fuel e cur st)))
   \<and> (\<forall>r. fst (send_packets_loop fuel e cur st) = Done r \<longrightarrow>
        foldl phase_step Fresh (trace (snd (send_packets_loop fuel e cur st))) = Fresh)"
proof (induction fuel arbitrary: st cur)
  case 0
  then show ?case by simp
next
  case (Suc fuel)
  let ?M = "\<lambda>s. monitor phase_step phase_ok Fresh (trace s)"
  let ?P = "\<lambda>s. foldl phase_step Fresh (trace s)"
  let ?endp = "2 * int (BYTE_STEP e) * command_cnt e"
  obtain ns st1 where r: "read_nonstop e st = (ns, st1)"
    by (cases "read_nonstop e st")
  have m1: "?M st1" "?P st1 = Fresh"
    using read_nonstop_phase [OF Suc.prems, of e] r by simp_all
  obtain out st2 where d: "display_data_arr fuel e cur 0 ?endp st1 = (out, st2)"
    by (cases "display_data_arr fuel e cur 0 ?endp st1")
  have m2: "?M st2"
    using display_loop_phase [OF m1(1), of fuel e cur "replicate PACKET_SIZE 0" 0 ?endp] d
    by (simp add: display_data_arr_def)
  obtain ns' st3 where r': "read_nonstop e st2 = (ns', st3)"
    by (cases "read_nonstop e st2")
  have m3: "?M st3" "?P st3 = Fresh"
    using read_nonstop_phase [OF m2, of e] r' by simp_all
  let ?st4 = "usleep 1000000 (release_and_close cur st3)"
  have m4: "?M ?st4" "?P ?st4 = Fresh \<or> ?P ?st4 = Recovering"
    using m3 by (cases cur; simp add: prim_defs)+
  obtain out' st5 where rl: "reconnect_loop fuel e None ?st4 = (out', st5)"
    by (cases "reconnect_loop fuel e None ?st4")
  have ap: "appends recover_event ?st4 st5"
    using reconnect_loop_appends [OF appends_refl, of ?st4 fuel e None] rl by simp
  have m5: "?M st5"
    by (rule phase_monitor_appends [OF ap m4])
  have rec: "?M (snd (send_packets_loop fuel e c s))
             \<and> (\<forall>r. fst (send_packets_loop fuel e c s) = Done r \<longrightarrow>
                  ?P (snd (send_packets_loop fuel e c s)) = Fresh)"
    if "?M s" for c s
    using Suc.IH [OF that] .
  show ?case
    using r d r' rl m1 m2 m3 m5 rec
    by (cases ns; cases out; cases ns'; cases out') (simp_all)
qed

lemma send_packets_phase:
  "monitor phase_step phase_ok Fresh (trace (snd (send_packets fuel e cur init_state)))"
proof -
  have m: "monitor phase_step phase_ok Fresh (trace init_state)"
    by (simp add: init_state_def)
  obtain out st where l: "send_packets_loop fuel e cur init_state = (out, st)"
    by (cases "send_packets_loop fuel e cur init_state")
  note sp = send_packets_loop_phase [OF m, of fuel e cur]
  show ?thesis
  proof (cases out)
    case (Done r)
    then have "monitor phase_step phase_ok Fresh (trace st)"
      and "foldl phase_step Fresh (trace st) = Fresh"
      using sp l by simp_all
    then show ?thesis
      using l Done by (cases r) (simp_all add: send_packets_def prim_defs)
  qed (use sp l in \<open>simp_all add: send_packets_def\<close>)
qed


lemma phase_recovering_window:
  "monitor phase_step phase_ok Recovering w \<Longrightarrow> list_all (\<lambda>ev. \<not> is_read ev) w \<Longrightarrow>
   \<not> list_ex is_transfer w"
proof (induction w)
  case Nil
  show ?case by simp
next
  case (Cons ev w)
  show ?case
  proof (cases ev)
    case (Control_transfer k h buf r)
    then show ?thesis
      using Cons.prems by (cases k) simp_all
  qed (use Cons in auto)
qed

lemma phase_after_pacing_window:
  assumes "monitor phase_step phase_ok After_pacing w" and "list_all (\<lambda>ev. \<not> is_read ev) w"
  shows "w = []"
proof (cases w)
  case (Cons ev w')
  show ?thesis
  proof (cases ev)
    case (Control_transfer k h buf r)
    then show ?thesis
      using assms Cons by (cases k) simp_all
  qed (use assms Cons in auto)
qed simp

lemma phase_after_data_window:
  assumes "monitor phase_step phase_ok After_data w" and "list_all (\<lambda>ev. \<not> is_read ev) w"
  shows "w = [] \<or> w = [Usleep (1000 * 20)]"
proof (cases w)
  case (Cons ev w')
  show ?thesis
  proof (cases ev)
    case (Control_transfer k h buf r)
    then show ?thesis
      using assms Cons by (cases k) simp_all
  next
    case (Usleep usec)
    then have "usec = 1000 * 20" and "monitor phase_step phase_ok After_pacing w'"
      and "list_all (\<lambda>ev. \<not> is_read ev) w'"
      using assms Cons by simp_all
    then show ?thesis
      using phase_after_pacing_window [of w'] Cons Usleep by simp
  qed (use assms Cons in auto)
qed simp

lemma phase_after_header_window:
  assumes "monitor phase_step phase_ok After_header w" and "list_all (\<lambda>ev. \<not> is_read ev) w"
  shows "w = [] \<or> (\<exists>ev. is_data ev \<and> (w = [ev] \<or> w = [ev, Usleep (1000 * 20)]))"
proof (cases w)
  case (Cons ev w')
  show ?thesis
  proof (cases ev)
    case (Control_transfer k h buf r)
    show ?thesis
    proof (cases k)
      case Header_packet
      then show ?thesis
        using assms Cons Control_transfer by simp
    next
      case (Data_packet i)
      then have "monitor phase_step phase_ok After_data w'"
        and "list_all (\<lambda>ev. \<not> is_read ev) w'"
        using assms Cons Control_transfer by simp_all
      then show ?thesis
        using phase_after_data_window [of w'] Cons Control_transfer Data_packet by auto
    qed
  qed (use assms Cons in auto)
qed simp

lemma phase_fresh_window:
  assumes "monitor phase_step phase_ok Fresh w" and "list_all (\<lambda>ev. \<not> is_read ev) w"
      and "list_ex is_transfer w"
  shows "\<exists>hd. is_transfer hd \<and> \<not> is_data hd
           \<and> (w = [hd] \<or> (\<exists>ev. is_data ev \<and> (w = [hd, ev] \<or> w = [hd, ev, Usleep (1000 * 20)])))"
proof (cases w)
  case Nil
  then show ?thesis using assms(3) by simp
next
  case (Cons ev w')
  have rest: "list_all (\<lambda>ev. \<not> is_read ev) w'"
    using assms(2) Cons by simp
  have quiet: False if "phase_step Fresh ev = Recovering" "\<not> is_transfer ev"
  proof -
    have "monitor phase_step phase_ok Recovering w'"
      using assms(1) Cons that(1) by simp
    then have "\<not> list_ex is_transfer w'"
      using rest by (rule phase_recovering_window)
    then show False
      using assms(3) Cons that(2) by simp
  qed
  show ?thesis
  proof (cases ev)
    case (Control_transfer k h buf r)
    show ?thesis
    proof (cases k)
      case Header_packet
      then have "monitor phase_step phase_ok After_header w'"
        using assms(1) Cons Control_transfer by simp
      from phase_after_header_window [OF this rest]
      show ?thesis
        using Cons Control_transfer Header_packet by auto
    next
      case (Data_packet i)
      then show ?thesis
        using assms(1) Cons Control_transfer by simp
    qed
  next
    case (Read_nonstop c)
    then show ?thesis
      using assms(2) Cons by simp
  qed (use quiet in auto)
qed

lemma phase_window_bound:
  assumes "monitor phase_step phase_ok Fresh (pre @ Read_nonstop a # w @ rest)"
      and "list_all (\<lambda>ev. \<not> is_read ev) w" and "list_ex is_transfer w"
  shows "length (transfers w) \<le> 2 \<and> waited w \<le> 2 * (1000 * TIMEOUT) + 1000 * 20"
proof -
  have "monitor phase_step phase_ok Fresh w"
    using assms(1) by simp
  from phase_fresh_window [OF this assms(2,3)]
  obtain hd where hd: "is_transfer hd"
    and w: "w = [hd] \<or> (\<exists>ev. is_data ev \<and> (w = [hd, ev] \<or> w = [hd, ev, Usleep (1000 * 20)]))"
    by blast
  have t: "worst_usec ev = 1000 * TIMEOUT" if "is_transfer ev" for ev
    using that by (cases ev) simp_all
  have d: "is_transfer ev" if "is_data ev" for ev
    using that by (cases ev) simp_all
  show ?thesis
    using w hd t d by (auto simp: transfers_def waited_def)
qed

text \<open>
  Claim C7, amended. Once a read of the stop flag has seen \<open>stop\<close>, the run issues no
  control transfer, no sleep and no attempt to reconnect: every later event is another
  read of the flag (seeing \<open>stop\<close> again), the release of an interface or the close of
  the handle. The flag is read once in a cycle of the sending loop: whenever a packet is
  sent between two reads of the flag that follow each other, what lies between them is
  one header packet, or one header and one data packet, or both and the pacing delay of
  20 ms; so a flag that is set while the loop sends is seen after at most two control
  transfers and one pacing delay, that is within two transfer timeouts plus the pacing
  delay. When \<open>send_packets\<close> returns, the flag has been seen as \<open>stop\<close> and no handle is
  open and no interface claimed any more (the run starts with the connection of the
  handle it is given). With a signal at read \<open>t\<close>, \<open>t + 2\<close> units of fuel are enough for
  the run to end.
\<close>

theorem stop_observed_shutdown:
  assumes "tr = trace (snd (send_packets fuel e h0 init_state))"
  shows "(\<forall>i j. i < j \<and> j < length tr \<and> tr ! i = Read_nonstop False \<longrightarrow>
            shutdown_event (tr ! j))
         \<and> (\<forall>pre a w b post.
              tr = pre @ Read_nonstop a # w @ Read_nonstop b # post
              \<and> list_all (\<lambda>ev. \<not> is_read ev) w \<and> list_ex is_transfer w \<longrightarrow>
              length (transfers w) \<le> 2 \<and> waited w \<le> 2 * (1000 * TIMEOUT) + 1000 * 20)
         \<and> (fst (send_packets fuel e h0 init_state) = Done () \<longrightarrow>
              Read_nonstop False \<in> set tr
              \<and> foldl connection_step (connection_of h0) tr = ({}, {}))
         \<and> (\<forall>t. signal_at e = Some t \<and> t + 2 \<le> fuel \<longrightarrow>
              fst (send_packets fuel e h0 init_state) \<noteq> Out_of_fuel)"
proof -
  have mon: "monitor stop_seen after_stop_ok False tr"
    unfolding assms by (rule send_packets_stop_monitor)
  have a: "shutdown_event (tr ! j)" if "i < j" "j < length tr" "tr ! i = Read_nonstop False" for i j
    using stop_monitor_nth [OF mon that] .
  have ph: "monitor phase_step phase_ok Fresh tr"
    unfolding assms by (rule send_packets_phase)
  have b: "length (transfers w) \<le> 2 \<and> waited w \<le> 2 * (1000 * TIMEOUT) + 1000 * 20"
    if "tr = pre @ Read_nonstop a # w @ Read_nonstop b # post"
      "list_all (\<lambda>ev. \<not> is_read ev) w" "list_ex is_transfer w" for pre a w b post
    by (rule phase_window_bound [OF ph [unfolded that(1)] that(2,3)])
  obtain out st' where l: "send_packets_loop fuel e h0 init_state = (out, st')"
    by (cases "send_packets_loop fuel e h0 init_state")
  have c: "Read_nonstop False \<in> set tr \<and> foldl connection_step (connection_of h0) tr = ({}, {})"
    if dn: "fst (send_packets fuel e h0 init_state) = Done ()"
  proof -
    obtain r where out: "out = Done r"
      using dn l by (cases out) (simp_all add: send_packets_def)
    have tr: "tr = trace (release_and_close r st')"
      using l out by (simp add: assms send_packets_def)
    have "Read_nonstop False \<in> set (trace st')"
      using send_packets_loop_exit_read l out by simp
    then have "Read_nonstop False \<in> set tr"
      unfolding tr by (cases r) (simp_all add: prim_defs)
    moreover have "foldl connection_step (connection_of h0) (trace st') = connection_of r"
      by (rule send_packets_loop_connection [OF l [unfolded out]]) (simp add: init_state_def)
    then have "foldl connection_step (connection_of h0) tr = ({}, {})"
      unfolding tr by (rule release_and_close_connection)
    ultimately show ?thesis by simp
  qed
  have d: "fst (send_packets fuel e h0 init_state) \<noteq> Out_of_fuel"
    if "signal_at e = Some t" "t + 2 \<le> fuel" for t
  proof -
    have "fst (send_packets_loop fuel e h0 init_state) \<noteq> Out_of_fuel"
      by (rule send_packets_loop_fuel [OF that(1)]) (use that(2) in \<open>simp_all add: init_state_def\<close>)
    then show ?thesis
      using l by (cases out) (simp_all add: send_packets_def)
  qed
  show ?thesis
    using a b c d by blast
qed

theorem stop_latency_counterexample:
  "trace (snd (send_packets (Suc (Suc (Suc 0))) (demo_env 2 (Some 2) None) (Some 9) init_state))
     = [Read_nonstop True, Read_nonstop True]
       @ [Control_transfer Header_packet (Some 9) header_packet 64,
          Control_transfer (Data_packet 0) (Some 9) ([0x11, 0x12] @ replicate 62 0) 64,
          Usleep 20000]
       @ [Read_nonstop False, Read_nonstop False,
          Release_interface 9 0, Release_interface 9 1, Close 9]
   \<and> 1000 * TIMEOUT + 1000 * 20
       < waited [Control_transfer Header_packet (Some 9) header_packet 64,
                 Control_transfer (Data_packet 0) (Some 9) ([0x11, 0x12] @ replicate 62 0) 64,
                 Usleep 20000]
   \<and> waited [Control_transfer Header_packet (Some 9) header_packet 64,
              Control_transfer (Data_packet 0) (Some 9) ([0x11, 0x12] @ replicate 62 0) 64,
              Usleep 20000] = 2020000"
  by (simp add: run_defs waited_def TIMEOUT_def)

theorem stop_observed_shutdown_witness:
  "trace (snd (send_packets (Suc (Suc (Suc (Suc (Suc 0))))) (demo_env 1 (Some 3) None)
                 (Some 9) init_state))
     = [Read_nonstop True, Read_nonstop True,
        Control_transfer Header_packet (Some 9) header_packet 64,
        Control_transfer (Data_packet 0) (Some 9) ([0x11, 0x12] @ replicate 62 0) 64,
        Usleep 20000, Read_nonstop True, Read_nonstop False, Read_nonstop False,
        Release_interface 9 0, Release_interface 9 1, Close 9]
   \<and> shutdown_event (trace (snd (send_packets (Suc (Suc (Suc (Suc (Suc 0)))))
          (demo_env 1 (Some 3) None) (Some 9) init_state)) ! 8)
   \<and> fst (send_packets (Suc (Suc (Suc (Suc (Suc 0))))) (demo_env 1 (Some 3) None)
            (Some 9) init_state) = Done ()
   \<and> foldl connection_step (connection_of (Some 9))
        (trace (snd (send_packets (Suc (Suc (Suc (Suc (Suc 0))))) (demo_env 1 (Some 3) None)
                       (Some 9) init_state))) = ({}, {})
   \<and> waited [Control_transfer Header_packet (Some 9) header_packet 64,
              Control_transfer (Data_packet 0) (Some 9) ([0x11, 0x12] @ replicate 62 0) 64,
              Usleep 20000] \<le> 2 * (1000 * TIMEOUT) + 1000 * 20"
proof -
  let ?run = "send_packets (Suc (Suc (Suc (Suc (Suc 0))))) (demo_env 1 (Some 3) None)
                (Some 9) init_state"
  let ?w = "[Control_transfer Header_packet (Some 9) header_packet 64,
             Control_transfer (Data_packet 0) (Some 9) ([0x11, 0x12] @ replicate 62 0) 64,
             Usleep 20000]"
  have tr: "trace (snd ?run)
     = [Read_nonstop True, Read_nonstop True,
        Control_transfer Header_packet (Some 9) header_packet 64,
        Control_transfer (Data_packet 0) (Some 9) ([0x11, 0x12] @ replicate 62 0) 64,
        Usleep 20000, Read_nonstop True, Read_nonstop False, Read_nonstop False,
        Release_interface 9 0, Release_interface 9 1, Close 9]"
    and fin: "fst ?run = Done ()"
    by (simp_all add: run_defs)
  note all = stop_observed_shutdown [OF refl, of "Suc (Suc (Suc (Suc (Suc 0))))"
      "demo_env 1 (Some 3) None" "Some 9"]
  have split: "trace (snd ?run) = [Read_nonstop True] @ Read_nonstop True # ?w
                 @ Read_nonstop True # [Read_nonstop False, Read_nonstop False,
                     Release_interface 9 0, Release_interface 9 1, Close 9]"
    and w: "list_all (\<lambda>ev. \<not> is_read ev) ?w" "list_ex is_transfer ?w"
    by (simp_all add: tr)
  have "waited ?w \<le> 2 * (1000 * TIMEOUT) + 1000 * 20"
    using all split w by blast
  moreover have "foldl connection_step (connection_of (Some 9)) (trace (snd ?run)) = ({}, {})"
    using all fin by blast
  moreover have "(6::nat) < 8" and "8 < length (trace (snd ?run))"
    and "trace (snd ?run) ! 6 = Read_nonstop False"
    by (simp_all add: tr)
  then have "shutdown_event (trace (snd ?run) ! 8)"
    using all by blast
  ultimately show ?thesis
    using tr fin by blast
qed

section \<open>A failed transfer after the stop\<close>

lemma release_and_close_trace:
  "trace (release_and_close cur st) = trace st @ release_events cur"
  by (cases cur) (simp_all add: prim_defs)

lemma display_returned_fuel:
  "display_data_arr fuel e cur colcommand endp st = (Done r, st') \<Longrightarrow> \<exists>f. fuel = Suc f"
  by (cases fuel) (simp_all add: display_data_arr_def)

text \<open>
  Claim C10. When a pass over the stream reports a failure (\<open>display_data_arr\<close> returns a
  value other than 0) and the read of \<open>nonstop\<close> that examines it sees 0, \<open>send_packets\<close>
  returns after these events only: that read, the read of the loop condition, and the
  release of both interfaces and the close of the handle. No device list is fetched, no
  device opened, and the wait of one second before reconnecting does not happen.
\<close>

theorem failure_after_stop_no_reconnect:
  assumes "nonstop_at e (nreads st)"
      and "display_data_arr fuel e cur 0 (2 * int (BYTE_STEP e) * command_cnt e)
             (snd (read_nonstop e st)) = (Done r, st2)"
      and "r \<noteq> 0"
      and "\<not> nonstop_at e (nreads st2)"
  shows "fst (send_packets (Suc fuel) e cur st) = Done ()
         \<and> trace (snd (send_packets (Suc fuel) e cur st))
             = trace st2 @ [Read_nonstop False, Read_nonstop False] @ release_events cur"
proof -
  obtain f where f: "fuel = Suc f"
    using display_returned_fuel [OF assms(2)] by blast
  obtain st1 where r1: "read_nonstop e st = (True, st1)" and s1: "st1 = snd (read_nonstop e st)"
    using assms(1) by (simp add: read_nonstop_def)
  obtain st3 where r3: "read_nonstop e st2 = (False, st3)"
    and n3: "nreads st3 = Suc (nreads st2)"
    and t3: "trace st3 = trace st2 @ [Read_nonstop False]"
    using assms(4) by (simp add: read_nonstop_def emit_def)
  have "\<not> nonstop_at e (nreads st3)"
    using assms(4) n3 by (simp add: nonstop_at_mono)
  then obtain st4 where r4: "read_nonstop e st3 = (False, st4)"
    and t4: "trace st4 = trace st2 @ [Read_nonstop False, Read_nonstop False]"
    using t3 by (simp add: read_nonstop_def emit_def)
  have d: "display_data_arr fuel e cur 0 (2 * int (BYTE_STEP e) * command_cnt e) st1
             = (Done r, st2)"
    using assms(2) s1 by simp
  have "send_packets_loop (Suc fuel) e cur st = (Done cur, st4)"
    using r1 d assms(3) r3 r4 by (simp add: f)
  then show ?thesis
    using t4 by (simp add: send_packets_def release_and_close_trace)
qed

theorem failure_after_stop_no_reconnect_witness:
  "fst (send_packets (Suc (Suc 0)) (demo_env 1 (Some 2) (Some 1)) (Some 9) init_state) = Done ()
   \<and> trace (snd (send_packets (Suc (Suc 0)) (demo_env 1 (Some 2) (Some 1)) (Some 9) init_state))
       = [Read_nonstop True, Read_nonstop True,
          Control_transfer Header_packet (Some 9) header_packet 64,
          Control_transfer (Data_packet 0) (Some 9) ([0x11, 0x12] @ replicate 62 0) (- 7)]
         @ [Read_nonstop False, Read_nonstop False] @ release_events (Some 9)"
proof -
  let ?e = "demo_env 1 (Some 2) (Some 1)"
  let ?st2 = "snd (display_data_arr (Suc 0) ?e (Some 9) 0
                     (2 * int (BYTE_STEP ?e) * command_cnt ?e) (snd (read_nonstop ?e init_state)))"
  have a: "nonstop_at ?e (nreads init_state)"
    by (simp add: run_defs)
  have d: "display_data_arr (Suc 0) ?e (Some 9) 0 (2 * int (BYTE_STEP ?e) * command_cnt ?e)
             (snd (read_nonstop ?e init_state)) = (Done (- 1), ?st2)"
    by (simp add: run_defs)
  have s: "\<not> nonstop_at ?e (nreads ?st2)"
    by (simp add: run_defs)
  have t: "trace ?st2 = [Read_nonstop True, Read_nonstop True,
          Control_transfer Header_packet (Some 9) header_packet 64,
          Control_transfer (Data_packet 0) (Some 9) ([0x11, 0x12] @ replicate 62 0) (- 7)]"
    by (simp add: run_defs)
  show ?thesis
    using failure_after_stop_no_reconnect [OF a d _ s] t by simp
qed

section \<open>Reconnecting while the microphone is absent\<close>

lemma dev_search_absent:
  "list_all (\<lambda>d. is_compatible_mic d = 0) devs \<Longrightarrow>
   dev_search devs st = (None, st\<lparr>trace := trace st @ replicate (length devs) (Usleep 10000)\<rparr>)"
proof (induction devs arbitrary: st)
  case Nil
  show ?case by simp
next
  case (Cons dev devs)
  then show ?case
    by (simp add: prim_defs replicate_app_Cons_same)
qed

lemma attempt_reconnect_absent:
  assumes "device_absent (device_list_result e (nlists st))"
  shows "fst (attempt_reconnect e st) = None"
    and "trace (snd (attempt_reconnect e st))
           = trace st @ lookup_events (device_list_result e (nlists st))"
    and "nlists (snd (attempt_reconnect e st)) = Suc (nlists st)"
    and "nreads (snd (attempt_reconnect e st)) = nreads st"
  using assms
  by (auto simp: attempt_reconnect_def device_absent_def prim_defs dev_search_absent
      split: option.splits)

lemma reconnect_loop_never_found:
  assumes "\<forall>n. device_absent (device_list_result e n)" and "signal_at e = None"
  shows "fst (reconnect_loop F e None st) = Out_of_fuel"
proof (induction F arbitrary: st)
  case 0
  show ?case by simp
next
  case (Suc F)
  obtain st1 where r: "read_nonstop e st = (True, st1)"
    using assms(2) by (simp add: read_nonstop_def nonstop_at_def)
  obtain st2 where a: "attempt_reconnect e st1 = (None, st2)"
    using attempt_reconnect_absent(1) [of e st1] assms(1)
    by (cases "attempt_reconnect e st1") auto
  show ?case
    using r a Suc.IH by simp
qed

lemma reconnect_loop_exit:
  assumes "\<forall>n. device_absent (device_list_result e n)"
  shows "reconnect_loop F e None st = (Done r, st') \<Longrightarrow>
         r = None \<and> last (trace st') = Read_nonstop False"
proof (induction F arbitrary: st)
  case 0
  then show ?case by simp
next
  case (Suc F)
  obtain st2 where a: "attempt_reconnect e (snd (read_nonstop e st)) = (None, st2)"
    using attempt_reconnect_absent(1) [of e "snd (read_nonstop e st)"] assms
    by (cases "attempt_reconnect e (snd (read_nonstop e st))") auto
  show ?case
  proof (cases "nonstop_at e (nreads st)")
    case True
    then have "reconnect_loop F e None (usleep 2000000 st2) = (Done r, st')"
      using Suc.prems a by (simp add: read_nonstop_def)
    then show ?thesis by (rule Suc.IH)
  next
    case False
    then show ?thesis
      using Suc.prems by (auto simp: read_nonstop_def emit_def)
  qed
qed

lemma reconnect_loop_retries:
  assumes "\<forall>n. device_absent (device_list_result e n)" and "signal_at e = Some t"
  shows "n = t - nreads st \<Longrightarrow> nreads st \<le> t \<Longrightarrow> n < F \<Longrightarrow>
         fst (reconnect_loop F e None st) = Done None
         \<and> trace (snd (reconnect_loop F e None st))
             = trace st @ retries e (nlists st) n @ [Read_nonstop False]
         \<and> nreads (snd (reconnect_loop F e None st)) = Suc t"
proof (induction n arbitrary: st F)
  case 0
  then obtain f where F: "F = Suc f"
    by (cases F) auto
  have "\<not> nonstop_at e (nreads st)"
    using 0 assms(2) by (simp add: nonstop_at_def)
  then show ?case
    using 0 by (simp add: F read_nonstop_def emit_def)
next
  case (Suc n)
  then obtain f where F: "F = Suc f" and f: "n < f"
    by (cases F) auto
  have lt: "nreads st < t"
    using Suc.prems(1) by arith
  have ns: "nonstop_at e (nreads st)"
    using lt assms(2) by (simp add: nonstop_at_def)
  obtain st1 where r: "read_nonstop e st = (True, st1)"
    and s1: "trace st1 = trace st @ [Read_nonstop True]" "nreads st1 = Suc (nreads st)"
      "nlists st1 = nlists st"
    using ns by (simp add: read_nonstop_def emit_def)
  note ab = attempt_reconnect_absent [of e st1]
  obtain st2 where a: "attempt_reconnect e st1 = (None, st2)"
    and s2: "trace st2 = trace st @ [Read_nonstop True] @ lookup_events (device_list_result e (nlists st))"
      "nreads st2 = Suc (nreads st)" "nlists st2 = Suc (nlists st)"
    using ab assms(1) s1 by (cases "attempt_reconnect e st1") auto
  let ?st3 = "usleep 2000000 st2"
  have s3: "trace ?st3 = trace st @ [Read_nonstop True]
               @ lookup_events (device_list_result e (nlists st)) @ [Usleep 2000000]"
    "nreads ?st3 = Suc (nreads st)" "nlists ?st3 = Suc (nlists st)"
    using s2 by (simp_all add: usleep_def emit_def)
  have c: "n = t - nreads ?st3" "nreads ?st3 \<le> t"
    using Suc.prems(1) lt s3(2) by simp_all
  note ih = Suc.IH [OF c f]
  have step: "reconnect_loop F e None st = reconnect_loop f e None ?st3"
    using r a by (simp add: F)
  show ?case
    unfolding step using ih by (simp add: s3)
qed

lemma display_loop_more_fuel:
  "display_loop fuel e h packet colcommand endp st = (out, st') \<Longrightarrow> out \<noteq> Out_of_fuel \<Longrightarrow>
   display_loop (fuel + k) e h packet colcommand endp st = (out, st')"
proof (induction fuel arbitrary: st packet colcommand)
  case 0
  then show ?case by simp
next
  case (Suc fuel)
  show ?case
    using Suc.prems
    by (auto simp: prim_defs split: option.splits if_splits intro: Suc.IH)
qed


lemma display_data_arr_more_fuel:
  "display_data_arr fuel e h colcommand endp st = (Done r, st') \<Longrightarrow>
   display_data_arr (fuel + k) e h colcommand endp st = (Done r, st')"
  unfolding display_data_arr_def by (rule display_loop_more_fuel) simp_all

lemma display_loop_failed_transfer:
  "display_loop fuel e h packet colcommand endp st = (out, st') \<Longrightarrow>
   \<exists>evs. trace st' = trace st @ evs \<and> (list_ex failed_transfer evs \<longrightarrow> out = Done (- 1))"
proof (induction fuel arbitrary: st packet colcommand)
  case 0
  then show ?case by simp
next
  case (Suc fuel)
  show ?case
  proof (cases "colcommand < endp \<and> nonstop_at e (nreads st)")
    case False
    then show ?thesis
      using Suc.prems by (auto simp: prim_defs split: if_splits)
  next
    case True
    let ?r0 = "transfer_result e (nxfers st)"
    let ?st2 = "snd (send_display_command e header_packet h (snd (read_nonstop e st)))"
    have t2: "trace ?st2 = trace st @ [Read_nonstop True,
                Control_transfer Header_packet h header_packet ?r0]"
      using True by (simp add: prim_defs)
    show ?thesis
    proof (cases "to_short ?r0 = int PACKET_SIZE")
      case False
      then show ?thesis
        using True Suc.prems t2 by (auto simp: prim_defs)
    next
      case hdr: True
      show ?thesis
      proof (cases "memcpy packet (data_arr e) colcommand (2 * BYTE_STEP e)")
        case None
        then show ?thesis
          using True hdr Suc.prems t2 by (auto simp: prim_defs)
      next
        case (Some packet')
        let ?r1 = "transfer_result e (Suc (nxfers st))"
        let ?st3 = "snd (libusb_control_transfer e (Data_packet colcommand) h packet' ?st2)"
        have t3: "trace ?st3 = trace st @ [Read_nonstop True,
                    Control_transfer Header_packet h header_packet ?r0,
                    Control_transfer (Data_packet colcommand) h packet' ?r1]"
          using True by (simp add: prim_defs)
        show ?thesis
        proof (cases "to_short ?r1 = int PACKET_SIZE")
          case False
          then show ?thesis
            using True hdr Some Suc.prems t3 by (auto simp: prim_defs)
        next
          case dat: True
          have rec: "display_loop fuel e h packet' (colcommand + 2 * int (BYTE_STEP e)) endp
                       (usleep (1000 * 20) ?st3) = (out, st')"
            using True hdr Some dat Suc.prems by (simp add: prim_defs)
          from Suc.IH [OF rec] obtain evs where
            evs: "trace st' = trace (usleep (1000 * 20) ?st3) @ evs"
              "list_ex failed_transfer evs \<longrightarrow> out = Done (- 1)"
            by blast
          have "trace st' = trace st @ ([Read_nonstop True,
                    Control_transfer Header_packet h header_packet ?r0,
                    Control_transfer (Data_packet colcommand) h packet' ?r1,
                    Usleep (1000 * 20)] @ evs)"
            using evs(1) t3 by (simp add: usleep_def emit_def)
          moreover have "list_ex failed_transfer ([Read_nonstop True,
                    Control_transfer Header_packet h header_packet ?r0,
                    Control_transfer (Data_packet colcommand) h packet' ?r1,
                    Usleep (1000 * 20)] @ evs) \<longrightarrow> out = Done (- 1)"
            using evs(2) hdr dat by simp
          ultimately show ?thesis
            by blast
        qed
      qed
    qed
  qed
qed

text \<open>A pass in which a transfer fails reports it: \<open>display_data_arr\<close> returns \<open>- 1\<close>.\<close>

lemma display_data_arr_failed_transfer:
  assumes "display_data_arr fuel e h colcommand endp st = (out, st')"
      and "trace st' = trace st @ evs" and "list_ex failed_transfer evs"
  shows "out = Done (- 1)"
proof -
  obtain evs' where "trace st' = trace st @ evs'"
    "list_ex failed_transfer evs' \<longrightarrow> out = Done (- 1)"
    using display_loop_failed_transfer [of fuel e h "replicate PACKET_SIZE 0" colcommand endp st
        out st'] assms(1)
    by (auto simp: display_data_arr_def)
  then show ?thesis
    using assms(2,3) by simp
qed

lemma failed_pass_retries:
  assumes gone: "\<forall>n. device_absent (device_list_result e n)"
      and ns: "nonstop_at e (nreads st)"
      and pass: "display_data_arr fuel e cur 0 (2 * int (BYTE_STEP e) * command_cnt e)
                   (snd (read_nonstop e st)) = (out, st2)"
      and evs: "trace st2 = trace (snd (read_nonstop e st)) @ evs"
      and failed: "list_ex failed_transfer evs"
      and sig: "signal_at e = Some t" and lt: "nreads st2 < t"
  shows "fst (send_packets (Suc (fuel + (t - nreads st2))) e cur st) = Done ()"
    and "trace (snd (send_packets (Suc (fuel + (t - nreads st2))) e cur st))
           = trace st2 @ [Read_nonstop True] @ release_events cur @ [Usleep 1000000]
               @ retries e (nlists st2) (t - Suc (nreads st2))
               @ [Read_nonstop False, Read_nonstop False]"
proof -
  let ?F = "fuel + (t - nreads st2)"
  let ?endp = "2 * int (BYTE_STEP e) * command_cnt e"
  have out: "out = Done (- 1)"
    by (rule display_data_arr_failed_transfer [OF pass evs failed])
  obtain st1 where r1: "read_nonstop e st = (True, st1)" and s1: "st1 = snd (read_nonstop e st)"
    using ns by (simp add: read_nonstop_def)
  have d: "display_data_arr ?F e cur 0 ?endp st1 = (Done (- 1), st2)"
    using display_data_arr_more_fuel [of fuel e cur 0 ?endp st1 "- 1" st2] pass out s1 by simp
  obtain st3 where r3: "read_nonstop e st2 = (True, st3)"
    and s3: "trace st3 = trace st2 @ [Read_nonstop True]" "nreads st3 = Suc (nreads st2)"
      "nlists st3 = nlists st2"
    using sig lt by (simp add: read_nonstop_def emit_def nonstop_at_def)
  let ?st4 = "usleep 1000000 (release_and_close cur st3)"
  have s4: "trace ?st4 = trace st2 @ [Read_nonstop True] @ release_events cur @ [Usleep 1000000]"
    "nreads ?st4 = Suc (nreads st2)" "nlists ?st4 = nlists st2"
    using s3 by (cases cur; simp add: prim_defs)+
  obtain out' st5 where rl: "reconnect_loop ?F e None ?st4 = (out', st5)"
    by (cases "reconnect_loop ?F e None ?st4")
  have "fst (reconnect_loop ?F e None ?st4) = Done None
         \<and> trace (snd (reconnect_loop ?F e None ?st4))
             = trace ?st4 @ retries e (nlists ?st4) (t - Suc (nreads st2)) @ [Read_nonstop False]
         \<and> nreads (snd (reconnect_loop ?F e None ?st4)) = Suc t"
    by (rule reconnect_loop_retries [OF gone sig]) (use s4 lt in simp_all)
  then have out': "out' = Done None"
    and s5: "trace st5 = trace st2 @ [Read_nonstop True] @ release_events cur @ [Usleep 1000000]
               @ retries e (nlists st2) (t - Suc (nreads st2)) @ [Read_nonstop False]"
      "nreads st5 = Suc t"
    using rl s4 by simp_all
  obtain f where F: "?F = Suc f"
    using lt by (cases ?F) auto
  have "\<not> nonstop_at e (nreads st5)"
    using sig s5(2) by (simp add: nonstop_at_def)
  then obtain st6 where r6: "read_nonstop e st5 = (False, st6)"
    and s6: "trace st6 = trace st5 @ [Read_nonstop False]"
    by (simp add: read_nonstop_def emit_def)
  have last: "send_packets_loop ?F e None st5 = (Done None, st6)"
    using r6 by (simp add: F)
  have "send_packets_loop (Suc ?F) e cur st = (Done None, st6)"
    using r1 d r3 rl out' last by simp
  then have run: "send_packets (Suc ?F) e cur st = (Done (), st6)"
    by (simp add: send_packets_def release_and_close_def)
  show "fst (send_packets (Suc ?F) e cur st) = Done ()"
    using run by simp
  show "trace (snd (send_packets (Suc ?F) e cur st))
           = trace st2 @ [Read_nonstop True] @ release_events cur @ [Usleep 1000000]
               @ retries e (nlists st2) (t - Suc (nreads st2))
               @ [Read_nonstop False, Read_nonstop False]"
    using run s6 s5 by simp
qed

text \<open>
  Claim C9. Let no supported device ever be in the device list again. Then the loop that
  reconnects never returns as long as no signal arrives, whatever the number of attempts
  (there is no limit and no error for too many attempts), and when it returns it returns
  without a handle, right after a read of the stop flag that saw \<open>stop\<close>. And whenever a
  transfer fails in a pass of the streaming loop, of the header or of the data packet,
  while the flag is still set, the run goes on with: the read that examines the failure,
  the release of the old connection, the wait of one second, then one attempt after the
  other, each followed by the wait of two seconds, as many as the reads of the flag before
  the signal allow, and then the two reads that see \<open>stop\<close> and the return.
\<close>

theorem reconnect_until_stop:
  assumes "\<forall>n. device_absent (device_list_result e n)"
  shows "(signal_at e = None \<longrightarrow> fst (reconnect_loop F e None st0) = Out_of_fuel)
         \<and> (reconnect_loop F e None st0 = (Done r', st1) \<longrightarrow>
              r' = None \<and> last (trace st1) = Read_nonstop False)
         \<and> (nonstop_at e (nreads st)
              \<and> display_data_arr fuel e cur 0 (2 * int (BYTE_STEP e) * command_cnt e)
                   (snd (read_nonstop e st)) = (out, st2)
              \<and> trace st2 = trace (snd (read_nonstop e st)) @ evs
              \<and> list_ex failed_transfer evs
              \<and> signal_at e = Some t \<and> nreads st2 < t \<longrightarrow>
              fst (send_packets (Suc (fuel + (t - nreads st2))) e cur st) = Done ()
              \<and> trace (snd (send_packets (Suc (fuel + (t - nreads st2))) e cur st))
                  = trace st2 @ [Read_nonstop True] @ release_events cur @ [Usleep 1000000]
                      @ retries e (nlists st2) (t - Suc (nreads st2))
                      @ [Read_nonstop False, Read_nonstop False])"
  using reconnect_loop_never_found [OF assms] reconnect_loop_exit [OF assms]
    failed_pass_retries [OF assms]
  by blast

theorem reconnect_until_stop_witness:
  "fst (send_packets (Suc (Suc (Suc (Suc (Suc 0))))) (empty_bus_env (Some 5) (Some 0))
          (Some 9) init_state) = Done ()
   \<and> trace (snd (send_packets (Suc (Suc (Suc (Suc (Suc 0))))) (empty_bus_env (Some 5) (Some 0))
                   (Some 9) init_state))
       = [Read_nonstop True, Read_nonstop True,
          Control_transfer Header_packet (Some 9) header_packet (- 7),
          Read_nonstop True, Release_interface 9 0, Release_interface 9 1, Close 9,
          Usleep 1000000,
          Read_nonstop True, Get_device_list, Free_device_list, Usleep 2000000,
          Read_nonstop True, Get_device_list, Free_device_list, Usleep 2000000,
          Read_nonstop False, Read_nonstop False]
   \<and> fst (send_packets (Suc (Suc (Suc (Suc (Suc 0))))) (empty_bus_env (Some 5) (Some 1))
          (Some 9) init_state) = Done ()
   \<and> trace (snd (send_packets (Suc (Suc (Suc (Suc (Suc 0))))) (empty_bus_env (Some 5) (Some 1))
                   (Some 9) init_state))
       = [Read_nonstop True, Read_nonstop True,
          Control_transfer Header_packet (Some 9) header_packet 64,
          Control_transfer (Data_packet 0) (Some 9) ([0x11, 0x12] @ replicate 62 0) (- 7),
          Read_nonstop True, Release_interface 9 0, Release_interface 9 1, Close 9,
          Usleep 1000000,
          Read_nonstop True, Get_device_list, Free_device_list, Usleep 2000000,
          Read_nonstop True, Get_device_list, Free_device_list, Usleep 2000000,
          Read_nonstop False, Read_nonstop False]
   \<and> fst (reconnect_loop (Suc (Suc (Suc 0))) (empty_bus_env None None) None init_state)
       = Out_of_fuel"
proof -
  have "\<forall>n. device_absent (device_list_result (empty_bus_env None None) n)"
    and "signal_at (empty_bus_env None None) = None"
    by (simp_all add: empty_bus_env_def demo_env_def device_absent_def)
  then have forever:
    "fst (reconnect_loop (Suc (Suc (Suc 0))) (empty_bus_env None None) None init_state)
       = Out_of_fuel"
    using reconnect_until_stop [of "empty_bus_env None None" "Suc (Suc (Suc 0))" init_state]
    by blast
  have run: "fst (send_packets (Suc (Suc (Suc (Suc (Suc 0))))) w (Some 9) init_state) = Done ()
     \<and> trace (snd (send_packets (Suc (Suc (Suc (Suc (Suc 0))))) w (Some 9) init_state))
         = [Read_nonstop True] @ evs
             @ [Read_nonstop True, Release_interface 9 0, Release_interface 9 1, Close 9,
                Usleep 1000000,
                Read_nonstop True, Get_device_list, Free_device_list, Usleep 2000000,
                Read_nonstop True, Get_device_list, Free_device_list, Usleep 2000000,
                Read_nonstop False, Read_nonstop False]"
    if e: "w = empty_bus_env (Some 5) k"
      and d: "display_data_arr (Suc 0) w (Some 9) 0 (2 * int (BYTE_STEP w) * command_cnt w)
                (snd (read_nonstop w init_state)) = (out, st2)"
      and t2: "trace st2 = [Read_nonstop True] @ evs"
      and f: "list_ex failed_transfer evs"
      and n2: "nreads st2 = 2" and l2: "nlists st2 = 0"
    for k out st2 evs and w :: env
  proof -
    have gone: "\<forall>n. device_absent (device_list_result w n)"
      by (simp add: e empty_bus_env_def device_absent_def)
    have a: "nonstop_at w (nreads init_state)"
      by (simp add: e run_defs)
    have t1: "trace (snd (read_nonstop w init_state)) = [Read_nonstop True]"
      by (simp add: e run_defs)
    have sig: "signal_at w = Some 5"
      by (simp add: e run_defs)
    have lt: "nreads st2 < 5"
      unfolding n2 by simp
    have fuel: "Suc (Suc 0 + (5 - nreads st2)) = Suc (Suc (Suc (Suc (Suc 0))))"
      unfolding n2 by simp
    have rt: "retries w (nlists st2) (5 - Suc (nreads st2))
                = [Read_nonstop True, Get_device_list, Free_device_list, Usleep 2000000,
                   Read_nonstop True, Get_device_list, Free_device_list, Usleep 2000000]"
      unfolding n2 l2 by (simp add: numeral_2_eq_2 e empty_bus_env_def)
    have "fst (send_packets (Suc (Suc 0 + (5 - nreads st2))) w (Some 9) init_state) = Done ()
          \<and> trace (snd (send_packets (Suc (Suc 0 + (5 - nreads st2))) w (Some 9) init_state))
              = trace st2 @ [Read_nonstop True] @ release_events (Some 9) @ [Usleep 1000000]
                  @ retries w (nlists st2) (5 - Suc (nreads st2))
                  @ [Read_nonstop False, Read_nonstop False]"
      using reconnect_until_stop [OF gone, of 0 init_state None init_state init_state "Suc 0"
          "Some 9" out st2 evs 5] a d t1 t2 f sig lt
      by simp
    then show ?thesis
      unfolding fuel rt t2 by simp
  qed
  let ?h = "empty_bus_env (Some 5) (Some 0)"
  let ?sh = "snd (display_data_arr (Suc 0) ?h (Some 9) 0
                    (2 * int (BYTE_STEP ?h) * command_cnt ?h) (snd (read_nonstop ?h init_state)))"
  have "trace ?sh = [Read_nonstop True]
           @ [Read_nonstop True, Control_transfer Header_packet (Some 9) header_packet (- 7)]"
    and "nreads ?sh = 2" and "nlists ?sh = 0"
    and "list_ex failed_transfer
           [Read_nonstop True, Control_transfer Header_packet (Some 9) header_packet (- 7)]"
    by (simp_all add: run_defs)
  from run [OF refl prod.collapse [symmetric] this(1) this(4) this(2) this(3)]
  have header: "fst (send_packets (Suc (Suc (Suc (Suc (Suc 0))))) ?h (Some 9) init_state) = Done ()
     \<and> trace (snd (send_packets (Suc (Suc (Suc (Suc (Suc 0))))) ?h (Some 9) init_state))
         = [Read_nonstop True, Read_nonstop True,
            Control_transfer Header_packet (Some 9) header_packet (- 7),
            Read_nonstop True, Release_interface 9 0, Release_interface 9 1, Close 9,
            Usleep 1000000,
            Read_nonstop True, Get_device_list, Free_device_list, Usleep 2000000,
            Read_nonstop True, Get_device_list, Free_device_list, Usleep 2000000,
            Read_nonstop False, Read_nonstop False]"
    by simp
  let ?d = "empty_bus_env (Some 5) (Some 1)"
  let ?sd = "snd (display_data_arr (Suc 0) ?d (Some 9) 0
                    (2 * int (BYTE_STEP ?d) * command_cnt ?d) (snd (read_nonstop ?d init_state)))"
  have "trace ?sd = [Read_nonstop True]
           @ [Read_nonstop True, Control_transfer Header_packet (Some 9) header_packet 64,
              Control_transfer (Data_packet 0) (Some 9) ([0x11, 0x12] @ replicate 62 0) (- 7)]"
    and "nreads ?sd = 2" and "nlists ?sd = 0"
    and "list_ex failed_transfer
           [Read_nonstop True, Control_transfer Header_packet (Some 9) header_packet 64,
            Control_transfer (Data_packet 0) (Some 9) ([0x11, 0x12] @ replicate 62 0) (- 7)]"
    by (simp_all add: run_defs)
  from run [OF refl prod.collapse [symmetric] this(1) this(4) this(2) this(3)]
  have data: "fst (send_packets (Suc (Suc (Suc (Suc (Suc 0))))) ?d (Some 9) init_state) = Done ()
     \<and> trace (snd (send_packets (Suc (Suc (Suc (Suc (Suc 0))))) ?d (Some 9) init_state))
         = [Read_nonstop True, Read_nonstop True,
            Control_transfer Header_packet (Some 9) header_packet 64,
            Control_transfer (Data_packet 0) (Some 9) ([0x11, 0x12] @ replicate 62 0) (- 7),
            Read_nonstop True, Release_interface 9 0, Release_interface 9 1, Close 9,
            Usleep 1000000,
            Read_nonstop True, Get_device_list, Free_device_list, Usleep 2000000,
            Read_nonstop True, Get_device_list, Free_device_list, Usleep 2000000,
            Read_nonstop False, Read_nonstop False]"
    by simp
  show ?thesis
    using header data forever by simp
qed

end
